theory Spec2Isabelle
  imports Complex_Main "HOL-Library.Word"
begin

unbundle bit_operations_syntax

section \<open>Machine integers\<close>

text \<open>
  \<^verbatim>\<open>SizeType\<close> is \<^verbatim>\<open>uint32_t\<close>; \<^verbatim>\<open>std::size_t\<close> and \<^verbatim>\<open>uintptr_t\<close> are 64-bit
  unsigned integers. Values are natural numbers and every arithmetic step of the source
  is followed by the reduction its type performs.
\<close>

definition u32 :: "nat \<Rightarrow> nat" where
  "u32 x = x mod 2 ^ 32"

definition u64 :: "nat \<Rightarrow> nat" where
  "u64 x = x mod 2 ^ 64"

text \<open>Unsigned subtraction \<^verbatim>\<open>a - b\<close> at 32 and at 64 bits.\<close>

definition sub32 :: "nat \<Rightarrow> nat \<Rightarrow> nat" where
  "sub32 a b = u32 (u32 a + (2 ^ 32 - u32 b))"

definition sub64 :: "nat \<Rightarrow> nat \<Rightarrow> nat" where
  "sub64 a b = u64 (u64 a + (2 ^ 64 - u64 b))"

section \<open>Exceptions\<close>

text \<open>
  The three exception classes of the library with their payloads,
  \<^verbatim>\<open>std::runtime_error\<close> as thrown by the statistics resource, and one value for
  the places where the source has undefined behaviour (an array index out of range, a
  division by zero, an iterator moved before \<^verbatim>\<open>begin()\<close>).
\<close>

datatype error =
    AllocateTooLargeBlock nat nat
  | OutOfFreeArenas nat
  | ArenaMemoryResourceCorruption nat nat nat
  | RuntimeError
  | UndefinedBehaviour

section \<open>UnsynchronizedArenaResourceBase\<close>

text \<open>
  The member variables of the base class and of the derived class it reads through
  \<^verbatim>\<open>derived()\<close>. \<open>arenaData\<close> is the address \<^verbatim>\<open>_arenaData.data()\<close>; the null
  pointer is the address 0.
\<close>

record pool =
  numArenas :: nat
  arenaSize :: nat
  arenaData :: nat
  data :: nat
  bytesLeft :: nat
  activeArenaId :: nat
  freeListHead :: nat
  freeList :: "nat list"
  numAllocationsInArena :: "nat list"

definition allocationsInArena :: "pool \<Rightarrow> nat \<Rightarrow> nat" where
  "allocationsInArena s arenaId = numAllocationsInArena s ! arenaId"

definition numberOfAllocations :: "pool \<Rightarrow> nat" where
  "numberOfAllocations s =
     u64 (sum_list (map (allocationsInArena s) [0 ..< numArenas s]))"

definition numberOfBusyArenas :: "pool \<Rightarrow> nat" where
  "numberOfBusyArenas s =
     (let result = sub32 (numArenas s) (freeListHead s)
      in if result = 1 \<and> allocationsInArena s (activeArenaId s) = 0 then 0 else result)"

definition reserveNextArena :: "pool \<Rightarrow> bool \<times> pool" where
  "reserveNextArena s =
     (if freeListHead s = 0 then (False, s)
      else
        let h = freeListHead s - 1;
            a = freeList s ! h
        in (True,
            s\<lparr>freeListHead := h,
              bytesLeft := arenaSize s,
              activeArenaId := a,
              data := u64 (arenaData s + u32 (arenaSize s * u32 (a + 1)))\<rparr>))"

definition initializeArenas :: "nat \<Rightarrow> nat \<Rightarrow> nat \<Rightarrow> pool" where
  "initializeArenas n sz base =
     snd (reserveNextArena
       \<lparr>numArenas = n, arenaSize = sz, arenaData = base,
        data = 0, bytesLeft = 0, activeArenaId = 0,
        freeListHead = n,
        freeList = map (\<lambda>i. n - 1 - i) [0 ..< n],
        numAllocationsInArena = replicate n 0\<rparr>)"

definition resetActiveArena :: "pool \<Rightarrow> pool" where
  "resetActiveArena s =
     s\<lparr>bytesLeft := arenaSize s,
       data := u64 (arenaData s + u32 (arenaSize s * u32 (activeArenaId s + 1))),
       numAllocationsInArena := (numAllocationsInArena s)[activeArenaId s := 0]\<rparr>"

text \<open>
  \<^verbatim>\<open>_freeList[_freeListHead++] = arenaId\<close> writes past the array when the free list
  already holds \<open>numArenas\<close> entries.
\<close>

definition releaseArena :: "pool \<Rightarrow> nat \<Rightarrow> error + pool" where
  "releaseArena s arenaId =
     (if numArenas s \<le> freeListHead s then Inl UndefinedBehaviour
      else Inr (s\<lparr>freeList := (freeList s)[freeListHead s := arenaId],
                 freeListHead := freeListHead s + 1,
                 numAllocationsInArena := (numAllocationsInArena s)[arenaId := 0]\<rparr>))"

text \<open>The quantities \<^verbatim>\<open>do_allocate_details\<close> computes before it branches.\<close>

definition alignmentOffset :: "pool \<Rightarrow> nat \<Rightarrow> nat \<Rightarrow> nat" where
  "alignmentOffset s bytes alignment =
     u32 (sub64 (data s) bytes AND sub64 alignment 1)"

definition numBytesNeeded :: "pool \<Rightarrow> nat \<Rightarrow> nat \<Rightarrow> nat" where
  "numBytesNeeded s bytes alignment = u32 (u32 bytes + alignmentOffset s bytes alignment)"

function do_allocate_details :: "pool \<Rightarrow> nat \<Rightarrow> nat \<Rightarrow> nat \<times> pool" where
  "do_allocate_details s bytes alignment =
     (if numBytesNeeded s bytes alignment > bytesLeft s then
        (if bytes \<le> arenaSize s \<and> fst (reserveNextArena s)
         then do_allocate_details (snd (reserveNextArena s)) bytes alignment
         else (0, s))
      else
        let p = sub64 (sub64 (data s) bytes) (alignmentOffset s bytes alignment);
            a = activeArenaId s
        in (p,
            s\<lparr>data := p,
              bytesLeft := bytesLeft s - numBytesNeeded s bytes alignment,
              numAllocationsInArena :=
                (numAllocationsInArena s)[a := u32 (numAllocationsInArena s ! a + 1)]\<rparr>))"
  by pat_completeness auto
termination
  by (relation "measure (\<lambda>(s, bytes, alignment). freeListHead s)")
     (auto simp: reserveNextArena_def Let_def split: if_splits)

declare do_allocate_details.simps [simp del]

text \<open>
  \<open>ee\<close> is the compile-time constant \<^verbatim>\<open>exceptionsEnabled\<close>. A thrown exception
  does not undo what \<^verbatim>\<open>do_allocate_details\<close> did, so the pool is returned on both
  outcomes.
\<close>

definition do_allocate :: "bool \<Rightarrow> pool \<Rightarrow> nat \<Rightarrow> nat \<Rightarrow> (error + nat) \<times> pool" where
  "do_allocate ee s bytes alignment =
     (if bytes = 0 then (Inr 0, s)
      else
        let (result, s') = do_allocate_details s bytes alignment
        in if ee \<and> result = 0 then
             (if bytes > arenaSize s
              then (Inl (AllocateTooLargeBlock bytes (arenaSize s)), s')
              else (Inl (OutOfFreeArenas (numArenas s)), s'))
           else (Inr result, s'))"

definition arenaIdOf :: "nat \<Rightarrow> nat \<Rightarrow> nat \<Rightarrow> nat" where
  "arenaIdOf base sz p = u32 (sub64 p base) div sz"

text \<open>
  The division by \<open>arenaSize\<close> is undefined for an arena size of 0, and with exceptions
  disabled an arena id of \<open>numArenas\<close> or more indexes past the counter array.
\<close>

definition do_deallocate :: "bool \<Rightarrow> pool \<Rightarrow> nat \<Rightarrow> nat \<Rightarrow> nat \<Rightarrow> (error + unit) \<times> pool" where
  "do_deallocate ee s p bytes alignment =
     (if arenaSize s = 0 then (Inl UndefinedBehaviour, s)
      else
        let arenaId = arenaIdOf (arenaData s) (arenaSize s) p
        in if ee \<and> arenaId \<ge> numArenas s
           then (Inl (ArenaMemoryResourceCorruption p bytes alignment), s)
           else if arenaId \<ge> numArenas s then (Inl UndefinedBehaviour, s)
           else
             let numAllocs = sub32 (numAllocationsInArena s ! arenaId) 1;
                 s1 = s\<lparr>numAllocationsInArena := (numAllocationsInArena s)[arenaId := numAllocs]\<rparr>
             in if numAllocs = 0 then
                  (if arenaId = activeArenaId s1 then (Inr (), resetActiveArena s1)
                   else (case releaseArena s1 arenaId of
                           Inl e \<Rightarrow> (Inl e, s1)
                         | Inr s2 \<Rightarrow> (Inr (), s2)))
                else (Inr (), s1))"

section \<open>SynchronizedArenaResourceBase\<close>

text \<open>
  The synchronized resource, one call at a time: the mutex and the atomicity of the
  per-arena counters have no effect on a single thread and are left out. The bump pointer
  ascends from the first byte of the active arena. \<open>binSize\<close> is
  \<^verbatim>\<open>alignof(max_align_t)\<close>, 16 on the common 64-bit platforms.
\<close>

definition binSize :: nat where
  "binSize = 16"

record sync_pool =
  s_numArenas :: nat
  s_arenaSize :: nat
  s_arenaData :: nat
  s_data :: nat
  s_bytesReserved :: nat
  s_activeArenaId :: nat
  s_freeListHead :: nat
  s_freeList :: "nat list"
  s_numAllocationsInArena :: "nat list"
  s_numDeallocationsInArena :: "nat list"

definition sync_allocationsInArena :: "sync_pool \<Rightarrow> nat \<Rightarrow> nat" where
  "sync_allocationsInArena s arenaId =
     sub32 (s_numAllocationsInArena s ! arenaId) (s_numDeallocationsInArena s ! arenaId)"

definition sync_numberOfAllocations :: "sync_pool \<Rightarrow> nat" where
  "sync_numberOfAllocations s =
     u64 (sum_list (map (sync_allocationsInArena s) [0 ..< s_numArenas s]))"

definition sync_numberOfBusyArenas :: "sync_pool \<Rightarrow> nat" where
  "sync_numberOfBusyArenas s =
     (let result = sub32 (s_numArenas s) (s_freeListHead s)
      in if result = 1 \<and> sync_allocationsInArena s (s_activeArenaId s) = 0 then 0 else result)"

definition sync_reserveNextArena :: "sync_pool \<Rightarrow> bool \<times> sync_pool" where
  "sync_reserveNextArena s =
     (if s_freeListHead s = 0 then (False, s)
      else
        let h = s_freeListHead s - 1;
            a = s_freeList s ! h
        in (True,
            s\<lparr>s_freeListHead := h,
              s_activeArenaId := a,
              s_data := u64 (s_arenaData s + u32 (a * s_arenaSize s)),
              s_bytesReserved := 0\<rparr>))"

definition sync_initializeArenas :: "nat \<Rightarrow> nat \<Rightarrow> nat \<Rightarrow> sync_pool" where
  "sync_initializeArenas n sz base =
     snd (sync_reserveNextArena
       \<lparr>s_numArenas = n, s_arenaSize = sz, s_arenaData = base,
        s_data = 0, s_bytesReserved = 0, s_activeArenaId = 0,
        s_freeListHead = n,
        s_freeList = map (\<lambda>i. n - 1 - i) [0 ..< n],
        s_numAllocationsInArena = replicate n 0,
        s_numDeallocationsInArena = replicate n 0\<rparr>)"

definition sync_resetActiveArena :: "sync_pool \<Rightarrow> sync_pool" where
  "sync_resetActiveArena s =
     s\<lparr>s_data := u64 (s_arenaData s + u32 (s_activeArenaId s * s_arenaSize s)),
       s_bytesReserved := 0,
       s_numAllocationsInArena := (s_numAllocationsInArena s)[s_activeArenaId s := 0],
       s_numDeallocationsInArena := (s_numDeallocationsInArena s)[s_activeArenaId s := 0]\<rparr>"

definition sync_releaseArena :: "sync_pool \<Rightarrow> nat \<Rightarrow> error + sync_pool" where
  "sync_releaseArena s arenaId =
     (if s_numArenas s \<le> s_freeListHead s then Inl UndefinedBehaviour
      else Inr (s\<lparr>s_freeList := (s_freeList s)[s_freeListHead s := arenaId],
                 s_freeListHead := s_freeListHead s + 1,
                 s_numAllocationsInArena := (s_numAllocationsInArena s)[arenaId := 0],
                 s_numDeallocationsInArena := (s_numDeallocationsInArena s)[arenaId := 0]\<rparr>))"

function sync_do_allocate_details :: "sync_pool \<Rightarrow> nat \<Rightarrow> nat \<times> sync_pool" where
  "sync_do_allocate_details s bytes =
     (let numReservedBytes = u64 (s_bytesReserved s + bytes)
      in if numReservedBytes > s_arenaSize s then
           (if fst (sync_reserveNextArena s)
            then sync_do_allocate_details (snd (sync_reserveNextArena s)) bytes
            else (0, s))
         else
           let a = s_activeArenaId s
           in (s_data s,
               s\<lparr>s_bytesReserved := numReservedBytes,
                 s_data := u64 (s_data s + bytes),
                 s_numAllocationsInArena :=
                   (s_numAllocationsInArena s)[a := u32 (s_numAllocationsInArena s ! a + 1)]\<rparr>))"
  by pat_completeness auto
termination
  by (relation "measure (\<lambda>(s, bytes). s_freeListHead s)")
     (auto simp: sync_reserveNextArena_def Let_def split: if_splits)

declare sync_do_allocate_details.simps [simp del]

text \<open>
  The request is rounded up to whole bins; the alignment argument has no name in the
  source and is not read. A request of more than one arena returns the null pointer before
  the bump step is tried, whether or not exceptions are enabled.
\<close>

definition sync_do_allocate ::
  "bool \<Rightarrow> sync_pool \<Rightarrow> nat \<Rightarrow> nat \<Rightarrow> (error + nat) \<times> sync_pool" where
  "sync_do_allocate ee s bytes alignment =
     (if bytes = 0 then (Inr 0, s)
      else
        let numBinsForData = u64 (u64 bytes + binSize - 1) div binSize;
            needed = u64 (numBinsForData * binSize)
        in if needed > s_arenaSize s then (Inr 0, s)
           else
             let (result, s') = sync_do_allocate_details s needed
             in if ee \<and> result = 0 then
                  (if needed > s_arenaSize s
                   then (Inl (AllocateTooLargeBlock bytes (s_arenaSize s)), s')
                   else (Inl (OutOfFreeArenas (s_numArenas s)), s'))
                else (Inr result, s'))"

definition sync_do_deallocate ::
  "bool \<Rightarrow> sync_pool \<Rightarrow> nat \<Rightarrow> nat \<Rightarrow> nat \<Rightarrow> (error + unit) \<times> sync_pool" where
  "sync_do_deallocate ee s p bytes alignment =
     (if s_arenaSize s = 0 then (Inl UndefinedBehaviour, s)
      else
        let arenaId = arenaIdOf (s_arenaData s) (s_arenaSize s) p
        in if ee \<and> arenaId \<ge> s_numArenas s
           then (Inl (ArenaMemoryResourceCorruption p bytes alignment), s)
           else if arenaId \<ge> s_numArenas s then (Inl UndefinedBehaviour, s)
           else
             let numDeallocs = u32 (s_numDeallocationsInArena s ! arenaId + 1);
                 s1 = s\<lparr>s_numDeallocationsInArena :=
                          (s_numDeallocationsInArena s)[arenaId := numDeallocs]\<rparr>;
                 numAllocs = s_numAllocationsInArena s1 ! arenaId
             in if numAllocs = numDeallocs then
                  (let arenaIsVacant =
                         (numAllocs = s_numAllocationsInArena s1 ! arenaId \<and>
                          numAllocs = s_numDeallocationsInArena s1 ! arenaId)
                   in if arenaIsVacant then
                        (if arenaId = s_activeArenaId s1 then (Inr (), sync_resetActiveArena s1)
                         else (case sync_releaseArena s1 arenaId of
                                 Inl e \<Rightarrow> (Inl e, s1)
                               | Inr s2 \<Rightarrow> (Inr (), s2)))
                      else (Inr (), s1))
                else (Inr (), s1))"

section \<open>StatisticsArenaResource\<close>

text \<open>
  \<^verbatim>\<open>std::pmr::map\<close> keeps its entries in ascending key order: an association list
  sorted by key. \<open>map_assign\<close> is \<^verbatim>\<open>m[k] = v\<close>, \<open>map_erase\<close> is \<^verbatim>\<open>m.erase(k)\<close>,
  \<open>hist_incr\<close> is \<^verbatim>\<open>hist[k] += 1\<close> on \<^verbatim>\<open>SizeType\<close> values.
\<close>

fun map_assign :: "nat \<Rightarrow> nat \<Rightarrow> (nat \<times> nat) list \<Rightarrow> (nat \<times> nat) list" where
  "map_assign k v [] = [(k, v)]"
| "map_assign k v ((k', v') # m) =
     (if k < k' then (k, v) # (k', v') # m
      else if k = k' then (k, v) # m
      else (k', v') # map_assign k v m)"

fun map_erase :: "nat \<Rightarrow> (nat \<times> nat) list \<Rightarrow> (nat \<times> nat) list" where
  "map_erase k [] = []"
| "map_erase k ((k', v') # m) = (if k = k' then m else (k', v') # map_erase k m)"

fun hist_incr :: "nat \<Rightarrow> (nat \<times> nat) list \<Rightarrow> (nat \<times> nat) list" where
  "hist_incr k [] = [(k, 1)]"
| "hist_incr k ((k', c) # h) =
     (if k < k' then (k, 1) # (k', c) # h
      else if k = k' then (k', u32 (c + 1)) # h
      else (k', c) # hist_incr k h)"

record stats_pool =
  base_pool :: pool
  addressToBytesMap :: "(nat \<times> nat) list"
  maxBusyArenas :: nat
  maxNumberOfAllocations :: nat

text \<open>
  The constructor of the statistics resource: the base class is built first (it asserts
  the same two conditions when assertions are compiled in), the two geometry checks throw
  \<^verbatim>\<open>std::runtime_error\<close>, the map starts empty.
\<close>

definition StatisticsArenaResource :: "bool \<Rightarrow> nat \<Rightarrow> nat \<Rightarrow> nat \<Rightarrow> error + stats_pool" where
  "StatisticsArenaResource ee n sz base =
     (if ee \<and> n \<le> 0 then Inl RuntimeError
      else if ee \<and> sz mod binSize \<noteq> 0 then Inl RuntimeError
      else Inr \<lparr>base_pool = initializeArenas n sz base, addressToBytesMap = [],
                maxBusyArenas = 0, maxNumberOfAllocations = 0\<rparr>)"

definition stats_do_allocate ::
  "bool \<Rightarrow> stats_pool \<Rightarrow> nat \<Rightarrow> nat \<Rightarrow> (error + nat) \<times> stats_pool" where
  "stats_do_allocate ee st bytes alignment =
     (case do_allocate ee (base_pool st) bytes alignment of
        (Inl e, b) \<Rightarrow> (Inl e, st\<lparr>base_pool := b\<rparr>)
      | (Inr p, b) \<Rightarrow>
          let m = map_assign p (u32 bytes) (addressToBytesMap st)
          in (Inr p,
              st\<lparr>base_pool := b,
                 addressToBytesMap := m,
                 maxBusyArenas := max (maxBusyArenas st) (numberOfBusyArenas b),
                 maxNumberOfAllocations := max (maxNumberOfAllocations st) (length m)\<rparr>))"

text \<open>The erase is inside \<^verbatim>\<open>if constexpr (exceptionsEnabled)\<close>.\<close>

definition stats_do_deallocate ::
  "bool \<Rightarrow> stats_pool \<Rightarrow> nat \<Rightarrow> nat \<Rightarrow> nat \<Rightarrow> (error + unit) \<times> stats_pool" where
  "stats_do_deallocate ee st p bytes alignment =
     (if ee \<and> p \<notin> fst ` set (addressToBytesMap st) then (Inl RuntimeError, st)
      else
        let m = (if ee then map_erase p (addressToBytesMap st) else addressToBytesMap st);
            (r, b) = do_deallocate ee (base_pool st) p bytes alignment
        in (r, st\<lparr>base_pool := b, addressToBytesMap := m\<rparr>))"

definition bytesAllocated :: "stats_pool \<Rightarrow> nat" where
  "bytesAllocated st = u64 (sum_list (map snd (addressToBytesMap st)))"

definition histogram :: "stats_pool \<Rightarrow> (nat \<times> nat) list" where
  "histogram st = foldl (\<lambda>hist (p, sz). hist_incr sz hist) [] (addressToBytesMap st)"

text \<open>
  The loop of \<^verbatim>\<open>percentile\<close>: \<open>rest\<close> is what the iterator has not passed, \<open>prev\<close>
  the key of the entry before it, if there is one. Dereferencing \<^verbatim>\<open>end()\<close> and
  \<^verbatim>\<open>std::prev(begin())\<close> are undefined.
\<close>

fun percentile_loop :: "nat \<Rightarrow> nat \<Rightarrow> nat option \<Rightarrow> (nat \<times> nat) list \<Rightarrow> error + nat" where
  "percentile_loop upperLimit accumulatedSum prev [] =
     (if accumulatedSum < upperLimit then Inl UndefinedBehaviour
      else case prev of None \<Rightarrow> Inl UndefinedBehaviour | Some k \<Rightarrow> Inr k)"
| "percentile_loop upperLimit accumulatedSum prev ((k, c) # rest) =
     (if accumulatedSum < upperLimit
      then percentile_loop upperLimit (u64 (accumulatedSum + c)) (Some k) rest
      else case prev of None \<Rightarrow> Inl UndefinedBehaviour | Some k' \<Rightarrow> Inr k')"

text \<open>
  \<^verbatim>\<open>double\<close> is the IEEE 754 binary64 format. \<open>Finite s m e\<close> is the number
  \<open>(-1)^s \<cdot> m \<cdot> 2^e\<close>, which \<open>dbl_value\<close> gives as a real; the numbers of the format
  are those with \<open>m < 2^53\<close> and \<open>-1074 \<le> e \<le> 971\<close>.
\<close>

datatype double = Finite bool nat int | Infinity bool | NaN

definition dbl_value :: "bool \<Rightarrow> nat \<Rightarrow> int \<Rightarrow> real" where
  "dbl_value s m e =
     (if s then - 1 else 1) * real m * (if 0 \<le> e then 2 ^ nat e else 1 / 2 ^ nat (- e))"

text \<open>
  Rounding to the nearest number of the format, ties to the even significand (the default
  rounding mode): \<open>dbl_round s n e\<close> is the \<^verbatim>\<open>double\<close> nearest to
  \<open>(-1)^s \<cdot> n \<cdot> 2^e\<close>. The significand keeps 53 bits, fewer below the smallest
  normal number, and a result of \<open>2^1024\<close> or more is an infinity.
\<close>

fun bit_length :: "nat \<Rightarrow> nat" where
  "bit_length n = (if n = 0 then 0 else Suc (bit_length (n div 2)))"

declare bit_length.simps [simp del]

definition round_nearest_even :: "nat \<Rightarrow> nat \<Rightarrow> nat" where
  "round_nearest_even n k =
     (let q = n div 2 ^ k;
          r = n mod 2 ^ k
      in if 2 ^ k < 2 * r \<or> (2 * r = 2 ^ k \<and> odd q) then q + 1 else q)"

definition dbl_round :: "bool \<Rightarrow> nat \<Rightarrow> int \<Rightarrow> double" where
  "dbl_round s n e =
     (let k = max (bit_length n - 53) (nat (- 1074 - e));
          m = round_nearest_even n k;
          e' = e + int k
      in if m \<noteq> 0 \<and> 1024 < int (bit_length m) + e' then Infinity s else Finite s m e')"

text \<open>
  The conversion of a \<^verbatim>\<open>std::size_t\<close> to \<^verbatim>\<open>double\<close> and the product of two
  \<^verbatim>\<open>double\<close> values, evaluated in \<^verbatim>\<open>double\<close> precision. The conversion is exact
  below \<open>2^53\<close>; above, the language leaves the choice between the two neighbours to
  the implementation, and rounding to nearest is what is written here.
\<close>

definition dbl_of_size :: "nat \<Rightarrow> double" where
  "dbl_of_size n = dbl_round False n 0"

fun dbl_times :: "double \<Rightarrow> double \<Rightarrow> double" where
  "dbl_times (Finite s m e) (Finite t n f) = dbl_round (s \<noteq> t) (m * n) (e + f)"
| "dbl_times (Finite s m e) (Infinity t) = (if m = 0 then NaN else Infinity (s \<noteq> t))"
| "dbl_times (Infinity s) (Finite t n f) = (if n = 0 then NaN else Infinity (s \<noteq> t))"
| "dbl_times (Infinity s) (Infinity t) = Infinity (s \<noteq> t)"
| "dbl_times NaN y = NaN"
| "dbl_times x NaN = NaN"

text \<open>
  The comparisons \<^verbatim>\<open>v < 0.0\<close>, \<^verbatim>\<open>1.0 < v\<close> and \<^verbatim>\<open>v == 0\<close>, all false of a NaN,
  and \<^verbatim>\<open>std::clamp(v, 0.0, 1.0)\<close>, which is
  \<^verbatim>\<open>(v < 0.0) ? 0.0 : (1.0 < v) ? 1.0 : v\<close>.
\<close>

fun less_zero :: "double \<Rightarrow> bool" where
  "less_zero (Finite s m e) = (s \<and> 0 < m)"
| "less_zero (Infinity s) = s"
| "less_zero NaN = False"

fun one_less :: "double \<Rightarrow> bool" where
  "one_less (Finite s m e) =
     (\<not> s \<and> (if 0 \<le> e then 1 < m * 2 ^ nat e else 2 ^ nat (- e) < m))"
| "one_less (Infinity s) = (\<not> s)"
| "one_less NaN = False"

fun equals_zero :: "double \<Rightarrow> bool" where
  "equals_zero (Finite s m e) = (m = 0)"
| "equals_zero (Infinity s) = False"
| "equals_zero NaN = False"

definition clamp_unit :: "double \<Rightarrow> double" where
  "clamp_unit v = (if less_zero v then Finite False 0 0
                   else if one_less v then Finite False 1 0 else v)"

text \<open>
  The conversion of a \<^verbatim>\<open>double\<close> to \<^verbatim>\<open>std::size_t\<close> discards the fraction; it is
  undefined (\<open>None\<close>) when the truncated value is not a \<^verbatim>\<open>std::size_t\<close>, for the
  infinities and for a NaN. \<open>upperLimit\<close> is \<^verbatim>\<open>std::size_t upperLimit = pc * sum\<close>: the
  sum is converted to \<^verbatim>\<open>double\<close>, the product is rounded to a \<^verbatim>\<open>double\<close>, and the
  rounded product is truncated.
\<close>

fun to_size :: "double \<Rightarrow> nat option" where
  "to_size (Finite s m e) =
     (let t = (if 0 \<le> e then m * 2 ^ nat e else m div 2 ^ nat (- e))
      in if t = 0 then Some 0 else if s \<or> 2 ^ 64 \<le> t then None else Some t)"
| "to_size (Infinity s) = None"
| "to_size NaN = None"

definition upperLimit :: "double \<Rightarrow> nat \<Rightarrow> nat option" where
  "upperLimit pc n = to_size (dbl_times pc (dbl_of_size n))"

text \<open>
  \<^verbatim>\<open>std::clamp\<close> requires a type that is less-than comparable, which \<^verbatim>\<open>double\<close>
  is when the argument is not a NaN: for a NaN the call is undefined.
\<close>

definition percentile :: "stats_pool \<Rightarrow> double \<Rightarrow> error + nat" where
  "percentile st pc0 =
     (if pc0 = NaN then Inl UndefinedBehaviour
      else
        let pc = clamp_unit pc0
        in if equals_zero pc then Inr 0
           else
             let hist = histogram st;
                 sum = u64 (sum_list (map snd hist))
             in if sum = 0 then Inr 0
                else case upperLimit pc sum of
                       None \<Rightarrow> Inl UndefinedBehaviour
                     | Some upper \<Rightarrow> percentile_loop upper 0 None hist)"

text \<open>
  The rule for \<open>percentile\<close> in the words of the specification: walk the histogram in
  ascending size order, accumulating counts until the running total would exceed
  \<open>p \<cdot> T\<close>, and return the size of the last entry included (\<open>None\<close> when not even
  the first entry can be included).
\<close>

fun percentile_spec_walk :: "real \<Rightarrow> nat \<Rightarrow> nat option \<Rightarrow> (nat \<times> nat) list \<Rightarrow> nat option" where
  "percentile_spec_walk limit tot included [] = included"
| "percentile_spec_walk limit tot included ((k, c) # rest) =
     (if real (tot + c) > limit then included
      else percentile_spec_walk limit (tot + c) (Some k) rest)"

definition percentile_spec :: "stats_pool \<Rightarrow> real \<Rightarrow> nat option" where
  "percentile_spec st p =
     (let hist = histogram st;
          T = sum_list (map snd hist)
      in if T = 0 \<or> p = 0 then Some 0
         else percentile_spec_walk (p * real T) 0 None hist)"

section \<open>Sequences of calls\<close>

text \<open>
  A consumer's calls, with exceptions enabled. A request is within the contract when the
  alignment is a power of two and size plus alignment fit \<^verbatim>\<open>SizeType\<close>; a
  deallocation is within the contract when its address is live, that is, was returned by
  an allocation and not yet given back. \<open>step\<close> is \<open>None\<close> on a call outside the
  contract. It records the live addresses, the number of allocate calls that returned
  storage and the number of deallocate calls.
\<close>

datatype op = Allocate nat nat | Deallocate nat nat nat

definition valid_request :: "nat \<Rightarrow> nat \<Rightarrow> bool" where
  "valid_request bytes alignment \<longleftrightarrow>
     (\<exists>k \<in> {0 ..< 32}. alignment = 2 ^ k) \<and> bytes + alignment \<le> 2 ^ 32"

record 'p run_state =
  the_pool :: 'p
  live :: "nat list"
  numAllocates :: nat
  numDeallocates :: nat

fun step :: "pool run_state \<Rightarrow> op \<Rightarrow> pool run_state option" where
  "step r (Allocate bytes alignment) =
     (if \<not> valid_request bytes alignment then None
      else case do_allocate True (the_pool r) bytes alignment of
             (Inl e, s') \<Rightarrow> Some (r\<lparr>the_pool := s'\<rparr>)
           | (Inr p, s') \<Rightarrow>
               if p = 0 then Some (r\<lparr>the_pool := s'\<rparr>)
               else Some (r\<lparr>the_pool := s', live := p # live r,
                            numAllocates := numAllocates r + 1\<rparr>))"
| "step r (Deallocate p bytes alignment) =
     (if p \<notin> set (live r) then None
      else Some (r\<lparr>the_pool := snd (do_deallocate True (the_pool r) p bytes alignment),
                   live := remove1 p (live r),
                   numDeallocates := numDeallocates r + 1\<rparr>))"

fun run :: "pool run_state \<Rightarrow> op list \<Rightarrow> pool run_state option" where
  "run r [] = Some r"
| "run r (x # xs) = (case step r x of None \<Rightarrow> None | Some r' \<Rightarrow> run r' xs)"

definition start :: "nat \<Rightarrow> nat \<Rightarrow> nat \<Rightarrow> pool run_state" where
  "start n sz base =
     \<lparr>the_pool = initializeArenas n sz base, live = [], numAllocates = 0, numDeallocates = 0\<rparr>"

fun sync_step :: "sync_pool run_state \<Rightarrow> op \<Rightarrow> sync_pool run_state option" where
  "sync_step r (Allocate bytes alignment) =
     (if \<not> valid_request bytes alignment then None
      else case sync_do_allocate True (the_pool r) bytes alignment of
             (Inl e, s') \<Rightarrow> Some (r\<lparr>the_pool := s'\<rparr>)
           | (Inr p, s') \<Rightarrow>
               if p = 0 then Some (r\<lparr>the_pool := s'\<rparr>)
               else Some (r\<lparr>the_pool := s', live := p # live r,
                            numAllocates := numAllocates r + 1\<rparr>))"
| "sync_step r (Deallocate p bytes alignment) =
     (if p \<notin> set (live r) then None
      else Some (r\<lparr>the_pool := snd (sync_do_deallocate True (the_pool r) p bytes alignment),
                   live := remove1 p (live r),
                   numDeallocates := numDeallocates r + 1\<rparr>))"

fun sync_run :: "sync_pool run_state \<Rightarrow> op list \<Rightarrow> sync_pool run_state option" where
  "sync_run r [] = Some r"
| "sync_run r (x # xs) = (case sync_step r x of None \<Rightarrow> None | Some r' \<Rightarrow> sync_run r' xs)"

definition sync_start :: "nat \<Rightarrow> nat \<Rightarrow> nat \<Rightarrow> sync_pool run_state" where
  "sync_start n sz base =
     \<lparr>the_pool = sync_initializeArenas n sz base, live = [],
      numAllocates = 0, numDeallocates = 0\<rparr>"

text \<open>
  The calls of a consumer of the statistics resource, under the same contract. The
  resource starts as its constructor leaves it. \<open>base_run\<close> is the record of the same
  calls as the base class sees them.
\<close>

definition base_run :: "stats_pool run_state \<Rightarrow> pool run_state" where
  "base_run r =
     \<lparr>the_pool = base_pool (the_pool r), live = live r,
      numAllocates = numAllocates r, numDeallocates = numDeallocates r\<rparr>"

fun stats_step :: "stats_pool run_state \<Rightarrow> op \<Rightarrow> stats_pool run_state option" where
  "stats_step r (Allocate bytes alignment) =
     (if \<not> valid_request bytes alignment then None
      else case stats_do_allocate True (the_pool r) bytes alignment of
             (Inl e, s') \<Rightarrow> Some (r\<lparr>the_pool := s'\<rparr>)
           | (Inr p, s') \<Rightarrow>
               if p = 0 then Some (r\<lparr>the_pool := s'\<rparr>)
               else Some (r\<lparr>the_pool := s', live := p # live r,
                            numAllocates := numAllocates r + 1\<rparr>))"
| "stats_step r (Deallocate p bytes alignment) =
     (if p \<notin> set (live r) then None
      else Some (r\<lparr>the_pool := snd (stats_do_deallocate True (the_pool r) p bytes alignment),
                   live := remove1 p (live r),
                   numDeallocates := numDeallocates r + 1\<rparr>))"

fun stats_run :: "stats_pool run_state \<Rightarrow> op list \<Rightarrow> stats_pool run_state option" where
  "stats_run r [] = Some r"
| "stats_run r (x # xs) = (case stats_step r x of None \<Rightarrow> None | Some r' \<Rightarrow> stats_run r' xs)"

definition stats_start :: "stats_pool \<Rightarrow> stats_pool run_state" where
  "stats_start st = \<lparr>the_pool = st, live = [], numAllocates = 0, numDeallocates = 0\<rparr>"


section \<open>Geometry and invariants\<close>

text \<open>
  The geometry the constructors are given: at least one arena of at least one byte, a
  pool size \<open>n * sz\<close> that \<^verbatim>\<open>SizeType\<close> can hold (the source computes it in
  \<^verbatim>\<open>SizeType\<close>), and storage that starts above the null address and ends inside the
  address space.
\<close>

definition wf_geometry :: "nat \<Rightarrow> nat \<Rightarrow> nat \<Rightarrow> bool" where
  "wf_geometry n sz base \<longleftrightarrow>
     0 < n \<and> 0 < sz \<and> n * sz < 2 ^ 32 \<and> 0 < base \<and> base + n * sz < 2 ^ 64"

definition in_storage :: "nat \<Rightarrow> nat \<Rightarrow> nat \<Rightarrow> nat \<Rightarrow> bool" where
  "in_storage n sz base p \<longleftrightarrow> base \<le> p \<and> p < base + n * sz"

definition arena_count :: "nat \<Rightarrow> nat \<Rightarrow> nat list \<Rightarrow> nat \<Rightarrow> nat" where
  "arena_count base sz L i = length (filter (\<lambda>p. arenaIdOf base sz p = i) L)"

text \<open>
  The invariant of the unsynchronized pool, relative to the list \<open>L\<close> of live addresses.
\<close>

definition pool_inv :: "pool \<Rightarrow> nat list \<Rightarrow> bool" where
  "pool_inv s L \<longleftrightarrow>
     wf_geometry (numArenas s) (arenaSize s) (arenaData s) \<and>
     length (freeList s) = numArenas s \<and>
     length (numAllocationsInArena s) = numArenas s \<and>
     activeArenaId s < numArenas s \<and>
     freeListHead s < numArenas s \<and>
     bytesLeft s \<le> arenaSize s \<and>
     data s = arenaData s + arenaSize s * activeArenaId s + bytesLeft s \<and>
     set (take (freeListHead s) (freeList s)) \<subseteq> {0 ..< numArenas s} - {activeArenaId s} \<and>
     distinct (take (freeListHead s) (freeList s)) \<and>
     (\<forall>a \<in> set (take (freeListHead s) (freeList s)). numAllocationsInArena s ! a = 0) \<and>
     (\<forall>i < numArenas s.
        numAllocationsInArena s ! i = arena_count (arenaData s) (arenaSize s) L i) \<and>
     (\<forall>p \<in> set L. in_storage (numArenas s) (arenaSize s) (arenaData s) p) \<and>
     numAllocationsInArena s ! activeArenaId s + bytesLeft s \<le> arenaSize s \<and>
     (\<forall>i < numArenas s. numAllocationsInArena s ! i \<le> arenaSize s)"

text \<open>The invariant of the synchronized pool.\<close>

definition sync_inv :: "sync_pool \<Rightarrow> nat list \<Rightarrow> bool" where
  "sync_inv s L \<longleftrightarrow>
     wf_geometry (s_numArenas s) (s_arenaSize s) (s_arenaData s) \<and>
     length (s_freeList s) = s_numArenas s \<and>
     length (s_numAllocationsInArena s) = s_numArenas s \<and>
     length (s_numDeallocationsInArena s) = s_numArenas s \<and>
     s_activeArenaId s < s_numArenas s \<and>
     s_freeListHead s < s_numArenas s \<and>
     s_bytesReserved s \<le> s_arenaSize s \<and>
     s_data s = s_arenaData s + s_arenaSize s * s_activeArenaId s + s_bytesReserved s \<and>
     set (take (s_freeListHead s) (s_freeList s)) \<subseteq> {0 ..< s_numArenas s} - {s_activeArenaId s} \<and>
     distinct (take (s_freeListHead s) (s_freeList s)) \<and>
     (\<forall>a \<in> set (take (s_freeListHead s) (s_freeList s)).
        s_numAllocationsInArena s ! a = 0 \<and> s_numDeallocationsInArena s ! a = 0) \<and>
     (\<forall>i < s_numArenas s.
        s_numAllocationsInArena s ! i =
          s_numDeallocationsInArena s ! i + arena_count (s_arenaData s) (s_arenaSize s) L i) \<and>
     (\<forall>p \<in> set L. in_storage (s_numArenas s) (s_arenaSize s) (s_arenaData s) p) \<and>
     s_numAllocationsInArena s ! s_activeArenaId s * binSize \<le> s_bytesReserved s \<and>
     s_bytesReserved s mod binSize = 0 \<and>
     (\<forall>i < s_numArenas s. s_numAllocationsInArena s ! i * binSize \<le> s_arenaSize s)"

text \<open>
  What holds of the recorded sequence at every moment: the invariant of the pool for the
  live addresses, the geometry the pool was built with, and the count of live addresses.
\<close>

definition run_inv :: "nat \<Rightarrow> nat \<Rightarrow> nat \<Rightarrow> pool run_state \<Rightarrow> bool" where
  "run_inv n sz base r \<longleftrightarrow>
     pool_inv (the_pool r) (live r) \<and>
     numArenas (the_pool r) = n \<and> arenaSize (the_pool r) = sz \<and> arenaData (the_pool r) = base \<and>
     length (live r) + numDeallocates r = numAllocates r"

definition sync_run_inv :: "nat \<Rightarrow> nat \<Rightarrow> nat \<Rightarrow> sync_pool run_state \<Rightarrow> bool" where
  "sync_run_inv n sz base r \<longleftrightarrow>
     sync_inv (the_pool r) (live r) \<and>
     s_numArenas (the_pool r) = n \<and> s_arenaSize (the_pool r) = sz \<and>
     s_arenaData (the_pool r) = base \<and>
     length (live r) + numDeallocates r = numAllocates r"


text \<open>
  What the free list holds beyond the invariant when every request so far was placed
  at the first attempt or in the arena reserved for it: an arena that is neither active
  nor in the free list holds an allocation, and an active arena without allocations is
  untouched. \<open>within_storage_alignment\<close> says of a call that its alignment divides the
  address of the storage and the arena size.
\<close>

definition tidy :: "pool \<Rightarrow> bool" where
  "tidy s \<longleftrightarrow>
     (\<forall>i < numArenas s.
        i \<noteq> activeArenaId s \<and> i \<notin> set (take (freeListHead s) (freeList s)) \<longrightarrow>
        numAllocationsInArena s ! i \<noteq> 0) \<and>
     (numAllocationsInArena s ! activeArenaId s = 0 \<longrightarrow> bytesLeft s = arenaSize s)"

fun within_storage_alignment :: "nat \<Rightarrow> nat \<Rightarrow> op \<Rightarrow> bool" where
  "within_storage_alignment sz base (Allocate bytes alignment) =
     (alignment dvd base \<and> alignment dvd sz)"
| "within_storage_alignment sz base (Deallocate p bytes alignment) = True"

definition sync_tidy :: "sync_pool \<Rightarrow> bool" where
  "sync_tidy s \<longleftrightarrow>
     (\<forall>i < s_numArenas s.
        i \<noteq> s_activeArenaId s \<and> i \<notin> set (take (s_freeListHead s) (s_freeList s)) \<longrightarrow>
        s_numAllocationsInArena s ! i \<noteq> s_numDeallocationsInArena s ! i) \<and>
     (s_numAllocationsInArena s ! s_activeArenaId s =
        s_numDeallocationsInArena s ! s_activeArenaId s \<longrightarrow> s_bytesReserved s = 0)"


text \<open>
  The live addresses are pairwise different, and those in the active arena lie at or
  above the bump pointer, which descends. For the statistics resource: the invariant of
  the base class and every live address a key of the address map.
\<close>

definition bump_ordered :: "pool \<Rightarrow> nat list \<Rightarrow> bool" where
  "bump_ordered s L \<longleftrightarrow>
     distinct L \<and>
     (\<forall>q \<in> set L. arenaIdOf (arenaData s) (arenaSize s) q = activeArenaId s \<longrightarrow> data s \<le> q)"

definition stats_run_inv :: "nat \<Rightarrow> nat \<Rightarrow> nat \<Rightarrow> stats_pool run_state \<Rightarrow> bool" where
  "stats_run_inv n sz base r \<longleftrightarrow>
     run_inv n sz base (base_run r) \<and>
     bump_ordered (base_pool (the_pool r)) (live r) \<and>
     set (live r) \<subseteq> fst ` set (addressToBytesMap (the_pool r))"


section \<open>Concrete pools\<close>

text \<open>
  A deallocation on an empty arena, followed by allocations in the same arena: a
  pool of two arenas of 256 bytes at the address 4096; the address 4096 is given back
  before anything was allocated; two blocks of 16 bytes and one of 256 bytes are
  allocated, the last from the second arena; the second block is given back.
\<close>

definition wrap0 :: pool where
  "wrap0 = initializeArenas 2 256 4096"

definition wrap1 :: pool where
  "wrap1 = snd (do_deallocate True wrap0 4096 0 16)"

definition wrap2 :: pool where
  "wrap2 = snd (do_allocate True wrap1 16 16)"

definition wrap3 :: pool where
  "wrap3 = snd (do_allocate True wrap2 16 16)"

definition wrap4 :: pool where
  "wrap4 = snd (do_allocate True wrap3 256 16)"

definition wrap5 :: pool where
  "wrap5 = snd (do_deallocate True wrap4 4320 16 16)"

text \<open>A synchronized pool of the same geometry, and the pool after one allocation.\<close>

definition sync0 :: sync_pool where
  "sync0 = sync_initializeArenas 2 256 4096"

definition sync1 :: sync_pool where
  "sync1 = snd (sync_do_allocate True sync0 16 32)"

text \<open>
  A statistics resource of the same geometry after allocations of 8, 16, 16 and 24
  bytes, each aligned to 8.
\<close>

definition stats0 :: stats_pool where
  "stats0 = \<lparr>base_pool = initializeArenas 2 256 4096, addressToBytesMap = [],
              maxBusyArenas = 0, maxNumberOfAllocations = 0\<rparr>"

definition stats1 :: stats_pool where
  "stats1 = snd (stats_do_allocate True stats0 8 8)"

definition stats2 :: stats_pool where
  "stats2 = snd (stats_do_allocate True stats1 16 8)"

definition stats3 :: stats_pool where
  "stats3 = snd (stats_do_allocate True stats2 16 8)"

definition stats4 :: stats_pool where
  "stats4 = snd (stats_do_allocate True stats3 24 8)"

text \<open>
  One block of 16 bytes allocated from each fresh pool, and the record of the sequence
  that allocates it and gives it back.
\<close>

definition wrap0a :: pool where
  "wrap0a = snd (do_allocate True wrap0 16 16)"

definition sync0a :: sync_pool where
  "sync0a = snd (sync_do_allocate True sync0 16 16)"

definition trace_end :: "pool run_state" where
  "trace_end = \<lparr>the_pool = wrap0, live = [], numAllocates = 1, numDeallocates = 1\<rparr>"

definition sync_trace_end :: "sync_pool run_state" where
  "sync_trace_end = \<lparr>the_pool = sync0, live = [], numAllocates = 1, numDeallocates = 1\<rparr>"

text \<open>
  A pool whose storage starts 256 bytes below a multiple of 2^32, and the statistics
  resource after one allocation of 16 bytes and after that block is given back.
\<close>

definition low0 :: pool where
  "low0 = initializeArenas 2 256 4294967040"

definition stats0a :: stats_pool where
  "stats0a = snd (stats_do_allocate True stats0 16 16)"

definition stats0b :: stats_pool where
  "stats0b = snd (stats_do_deallocate True stats0a 4336 16 16)"

definition stats_trace_end :: "stats_pool run_state" where
  "stats_trace_end = \<lparr>the_pool = stats0b, live = [], numAllocates = 1, numDeallocates = 1\<rparr>"


section \<open>A request aligned beyond the storage: evaluation\<close>

text \<open>
  A pool of three arenas of 256 bytes whose storage starts at the address 4112, which is
  a multiple of 16 and not of 32, as storage from \<^verbatim>\<open>operator new\<close> may be. A request
  of 256 bytes aligned to 32 needs 272 bytes in every arena.
\<close>

lemmas unsync_eval =
  initializeArenas_def reserveNextArena_def u32_def u64_def Let_def do_allocate_def
  do_allocate_details.simps numBytesNeeded_def alignmentOffset_def sub64_def sub32_def
  do_deallocate_def arenaIdOf_def releaseArena_def resetActiveArena_def
  numberOfBusyArenas_def numberOfAllocations_def allocationsInArena_def

lemma valid_request_256_32: "valid_request 256 32"
  unfolding valid_request_def by (auto intro!: bexI [of _ 5])

text \<open>
  C1. Claim: after every sequence of allocate and deallocate calls that leaves no live
  allocation, \<open>numberOfBusyArenas\<close> and \<open>numberOfAllocations\<close> are both 0.
  The code at the single call \<open>allocate(256, 32)\<close> on the fresh pool: the call fails,
  nothing is live, no allocation and no deallocation was counted,
  \<open>numberOfAllocations\<close> is 0, and \<open>numberOfBusyArenas\<close> is 3.
\<close>

theorem busy_arenas_after_failed_overaligned_allocate:
  "(case run (start 3 256 4112) [Allocate 256 32] of
      None \<Rightarrow> False
    | Some r \<Rightarrow> live r = [] \<and> numAllocates r = 0 \<and> numDeallocates r = 0 \<and>
        numberOfAllocations (the_pool r) = 0 \<and> numberOfBusyArenas (the_pool r) = 3)"
  by (simp add: start_def valid_request_256_32 unsync_eval upt_rec)

text \<open>
  C2. Claim: an allocate call that fails with \<open>AllocateTooLargeBlock\<close> or
  \<open>OutOfFreeArenas\<close> leaves the pool state as it was before the call.
  The code at \<open>allocate(256, 32)\<close> on the fresh pool: \<open>OutOfFreeArenas\<close> is thrown
  and the pool has changed: the free list went from two entries to none, the active arena
  from 0 to 2 and the bump pointer from 4368 to 4880.
\<close>

theorem failed_overaligned_allocate_changes_pool:
  "do_allocate True (initializeArenas 3 256 4112) 256 32 =
     (Inl (OutOfFreeArenas 3),
      (initializeArenas 3 256 4112)\<lparr>freeListHead := 0, activeArenaId := 2, data := 4880\<rparr>) \<and>
   freeListHead (initializeArenas 3 256 4112) = 2 \<and>
   activeArenaId (initializeArenas 3 256 4112) = 0 \<and>
   data (initializeArenas 3 256 4112) = 4368"
  by (simp add: unsync_eval)

text \<open>
  C3. Claim: when the request does not fit the active arena, is no larger than an arena
  and the free list is not empty, exactly one arena is popped and the retry in it
  succeeds.
  The code at \<open>do_allocate_details(256, 32)\<close> on the fresh pool: the request does not
  fit the active arena, 256 is the arena size, the free list holds two arenas; both are
  popped and the null pointer is returned.
\<close>

theorem overaligned_retry_pops_every_free_arena:
  "numBytesNeeded (initializeArenas 3 256 4112) 256 32 > bytesLeft (initializeArenas 3 256 4112) \<and>
   256 \<le> arenaSize (initializeArenas 3 256 4112) \<and>
   freeListHead (initializeArenas 3 256 4112) = 2 \<and>
   fst (do_allocate_details (initializeArenas 3 256 4112) 256 32) = 0 \<and>
   freeListHead (snd (do_allocate_details (initializeArenas 3 256 4112) 256 32)) = 0"
  by (simp add: unsync_eval)

section \<open>The concrete pools, evaluated\<close>

lemma replicate_2: "replicate 2 x = [x, x]"
  by (simp add: numeral_2_eq_2)

lemmas details_eval =
  numBytesNeeded_def alignmentOffset_def sub64_def u32_def u64_def Let_def reserveNextArena_def

lemmas dealloc_eval =
  do_deallocate_def arenaIdOf_def sub64_def sub32_def u32_def u64_def Let_def
  releaseArena_def resetActiveArena_def

lemma wrap0_eq:
  "wrap0 = \<lparr>numArenas = 2, arenaSize = 256, arenaData = 4096, data = 4352,
     bytesLeft = 256, activeArenaId = 0, freeListHead = 1, freeList = [1, 0],
     numAllocationsInArena = [0, 0]\<rparr>"
  by (simp add: wrap0_def initializeArenas_def details_eval upt_rec replicate_2)

lemma wrap1_res:
  "do_deallocate True wrap0 4096 0 16 =
     (Inr (), \<lparr>numArenas = 2, arenaSize = 256, arenaData = 4096, data = 4352,
        bytesLeft = 256, activeArenaId = 0, freeListHead = 1, freeList = [1, 0],
        numAllocationsInArena = [4294967295, 0]\<rparr>)"
  unfolding wrap0_eq by (simp add: dealloc_eval)

lemma wrap1_eq:
  "wrap1 = \<lparr>numArenas = 2, arenaSize = 256, arenaData = 4096, data = 4352,
     bytesLeft = 256, activeArenaId = 0, freeListHead = 1, freeList = [1, 0],
     numAllocationsInArena = [4294967295, 0]\<rparr>"
  unfolding wrap1_def wrap1_res by simp

lemma wrap2_res:
  "do_allocate True wrap1 16 16 =
     (Inr 4336, \<lparr>numArenas = 2, arenaSize = 256, arenaData = 4096, data = 4336,
        bytesLeft = 240, activeArenaId = 0, freeListHead = 1, freeList = [1, 0],
        numAllocationsInArena = [0, 0]\<rparr>)"
  unfolding wrap1_eq
  apply (simp add: do_allocate_def)
  apply (subst do_allocate_details.simps)
  apply (simp add: details_eval)
  done

lemma wrap2_eq:
  "wrap2 = \<lparr>numArenas = 2, arenaSize = 256, arenaData = 4096, data = 4336,
     bytesLeft = 240, activeArenaId = 0, freeListHead = 1, freeList = [1, 0],
     numAllocationsInArena = [0, 0]\<rparr>"
  unfolding wrap2_def wrap2_res by simp

lemma wrap3_res:
  "do_allocate True wrap2 16 16 =
     (Inr 4320, \<lparr>numArenas = 2, arenaSize = 256, arenaData = 4096, data = 4320,
        bytesLeft = 224, activeArenaId = 0, freeListHead = 1, freeList = [1, 0],
        numAllocationsInArena = [1, 0]\<rparr>)"
  unfolding wrap2_eq
  apply (simp add: do_allocate_def)
  apply (subst do_allocate_details.simps)
  apply (simp add: details_eval)
  done

lemma wrap3_eq:
  "wrap3 = \<lparr>numArenas = 2, arenaSize = 256, arenaData = 4096, data = 4320,
     bytesLeft = 224, activeArenaId = 0, freeListHead = 1, freeList = [1, 0],
     numAllocationsInArena = [1, 0]\<rparr>"
  unfolding wrap3_def wrap3_res by simp

lemma wrap4_res:
  "do_allocate True wrap3 256 16 =
     (Inr 4352, \<lparr>numArenas = 2, arenaSize = 256, arenaData = 4096, data = 4352,
        bytesLeft = 0, activeArenaId = 1, freeListHead = 0, freeList = [1, 0],
        numAllocationsInArena = [1, 1]\<rparr>)"
  unfolding wrap3_eq
  apply (simp add: do_allocate_def)
  apply (subst do_allocate_details.simps)
  apply (simp add: details_eval)
  apply (subst do_allocate_details.simps)
  apply (simp add: details_eval)
  done

lemma wrap4_eq:
  "wrap4 = \<lparr>numArenas = 2, arenaSize = 256, arenaData = 4096, data = 4352,
     bytesLeft = 0, activeArenaId = 1, freeListHead = 0, freeList = [1, 0],
     numAllocationsInArena = [1, 1]\<rparr>"
  unfolding wrap4_def wrap4_res by simp

lemma wrap5_res:
  "do_deallocate True wrap4 4320 16 16 =
     (Inr (), \<lparr>numArenas = 2, arenaSize = 256, arenaData = 4096, data = 4352,
        bytesLeft = 0, activeArenaId = 1, freeListHead = 1, freeList = [0, 0],
        numAllocationsInArena = [0, 1]\<rparr>)"
  unfolding wrap4_eq by (simp add: dealloc_eval)

lemma wrap5_eq:
  "wrap5 = \<lparr>numArenas = 2, arenaSize = 256, arenaData = 4096, data = 4352,
     bytesLeft = 0, activeArenaId = 1, freeListHead = 1, freeList = [0, 0],
     numAllocationsInArena = [0, 1]\<rparr>"
  unfolding wrap5_def wrap5_res by simp

lemma sync0_eq:
  "sync0 = \<lparr>s_numArenas = 2, s_arenaSize = 256, s_arenaData = 4096, s_data = 4096,
     s_bytesReserved = 0, s_activeArenaId = 0, s_freeListHead = 1, s_freeList = [1, 0],
     s_numAllocationsInArena = [0, 0], s_numDeallocationsInArena = [0, 0]\<rparr>"
  by (simp add: sync0_def sync_initializeArenas_def sync_reserveNextArena_def u32_def u64_def
      Let_def upt_rec replicate_2)

lemma sync1_res:
  "sync_do_allocate True sync0 16 32 =
     (Inr 4096, \<lparr>s_numArenas = 2, s_arenaSize = 256, s_arenaData = 4096, s_data = 4112,
        s_bytesReserved = 16, s_activeArenaId = 0, s_freeListHead = 1, s_freeList = [1, 0],
        s_numAllocationsInArena = [1, 0], s_numDeallocationsInArena = [0, 0]\<rparr>)"
  unfolding sync0_eq
  apply (simp add: sync_do_allocate_def binSize_def u64_def)
  apply (subst sync_do_allocate_details.simps)
  apply (simp add: u32_def u64_def Let_def)
  done

lemma sync1_eq:
  "sync1 = \<lparr>s_numArenas = 2, s_arenaSize = 256, s_arenaData = 4096, s_data = 4112,
     s_bytesReserved = 16, s_activeArenaId = 0, s_freeListHead = 1, s_freeList = [1, 0],
     s_numAllocationsInArena = [1, 0], s_numDeallocationsInArena = [0, 0]\<rparr>"
  unfolding sync1_def sync1_res by simp

lemma sync2_res:
  "sync_do_allocate True sync1 16 32 =
     (Inr 4112, \<lparr>s_numArenas = 2, s_arenaSize = 256, s_arenaData = 4096, s_data = 4128,
        s_bytesReserved = 32, s_activeArenaId = 0, s_freeListHead = 1, s_freeList = [1, 0],
        s_numAllocationsInArena = [2, 0], s_numDeallocationsInArena = [0, 0]\<rparr>)"
  unfolding sync1_eq
  apply (simp add: sync_do_allocate_def binSize_def u64_def)
  apply (subst sync_do_allocate_details.simps)
  apply (simp add: u32_def u64_def Let_def)
  done

lemma stats0_constructed: "StatisticsArenaResource True 2 256 4096 = Inr stats0"
  by (simp add: StatisticsArenaResource_def stats0_def binSize_def)

lemma stats0_eq:
  "stats0 = \<lparr>base_pool = \<lparr>numArenas = 2, arenaSize = 256, arenaData = 4096, data = 4352,
       bytesLeft = 256, activeArenaId = 0, freeListHead = 1, freeList = [1, 0],
       numAllocationsInArena = [0, 0]\<rparr>,
     addressToBytesMap = [], maxBusyArenas = 0, maxNumberOfAllocations = 0\<rparr>"
  by (simp add: stats0_def initializeArenas_def details_eval upt_rec replicate_2)

lemma stats1_eq:
  "stats1 = \<lparr>base_pool = \<lparr>numArenas = 2, arenaSize = 256, arenaData = 4096, data = 4344,
       bytesLeft = 248, activeArenaId = 0, freeListHead = 1, freeList = [1, 0],
       numAllocationsInArena = [1, 0]\<rparr>,
     addressToBytesMap = [(4344, 8)], maxBusyArenas = 1, maxNumberOfAllocations = 1\<rparr>"
  unfolding stats1_def stats0_eq
  apply (simp add: stats_do_allocate_def do_allocate_def)
  apply (subst do_allocate_details.simps)
  apply (simp add: details_eval numberOfBusyArenas_def sub32_def allocationsInArena_def)
  done

lemma stats2_eq:
  "stats2 = \<lparr>base_pool = \<lparr>numArenas = 2, arenaSize = 256, arenaData = 4096, data = 4328,
       bytesLeft = 232, activeArenaId = 0, freeListHead = 1, freeList = [1, 0],
       numAllocationsInArena = [2, 0]\<rparr>,
     addressToBytesMap = [(4328, 16), (4344, 8)],
     maxBusyArenas = 1, maxNumberOfAllocations = 2\<rparr>"
  unfolding stats2_def stats1_eq
  apply (simp add: stats_do_allocate_def do_allocate_def)
  apply (subst do_allocate_details.simps)
  apply (simp add: details_eval numberOfBusyArenas_def sub32_def allocationsInArena_def)
  done

lemma stats3_eq:
  "stats3 = \<lparr>base_pool = \<lparr>numArenas = 2, arenaSize = 256, arenaData = 4096, data = 4312,
       bytesLeft = 216, activeArenaId = 0, freeListHead = 1, freeList = [1, 0],
       numAllocationsInArena = [3, 0]\<rparr>,
     addressToBytesMap = [(4312, 16), (4328, 16), (4344, 8)],
     maxBusyArenas = 1, maxNumberOfAllocations = 3\<rparr>"
  unfolding stats3_def stats2_eq
  apply (simp add: stats_do_allocate_def do_allocate_def)
  apply (subst do_allocate_details.simps)
  apply (simp add: details_eval numberOfBusyArenas_def sub32_def allocationsInArena_def)
  done

lemma stats4_eq:
  "stats4 = \<lparr>base_pool = \<lparr>numArenas = 2, arenaSize = 256, arenaData = 4096, data = 4288,
       bytesLeft = 192, activeArenaId = 0, freeListHead = 1, freeList = [1, 0],
       numAllocationsInArena = [4, 0]\<rparr>,
     addressToBytesMap = [(4288, 24), (4312, 16), (4328, 16), (4344, 8)],
     maxBusyArenas = 1, maxNumberOfAllocations = 4\<rparr>"
  unfolding stats4_def stats3_eq
  apply (simp add: stats_do_allocate_def do_allocate_def)
  apply (subst do_allocate_details.simps)
  apply (simp add: details_eval numberOfBusyArenas_def sub32_def allocationsInArena_def)
  done

lemma stats4_histogram: "histogram stats4 = [(8, 1), (16, 2), (24, 1)]"
  unfolding stats4_eq by (simp add: histogram_def u32_def)

section \<open>Deallocation: the corruption check\<close>

lemma arenaId_ge_iff: "0 < sz \<Longrightarrow> (n \<le> x div sz) = (n * sz \<le> x)" for n sz x :: nat
  by (simp add: less_eq_div_iff_mult_less_eq)

lemma offset_in_storage:
  assumes "wf_geometry n sz base" and "in_storage n sz base p"
  shows "u32 (sub64 p base) = p - base"
proof -
  from assms have b: "base \<le> p" "p < base + n * sz" "n * sz < 2 ^ 32" "base + n * sz < 2 ^ 64"
    by (auto simp: wf_geometry_def in_storage_def)
  then have p64: "p < 2 ^ 64" and b64: "base < 2 ^ 64" by linarith+
  have "u64 p + (2 ^ 64 - u64 base) = 2 ^ 64 + (p - base)"
    using b p64 b64 by (simp add: u64_def)
  then have "sub64 p base = (2 ^ 64 + (p - base)) mod 2 ^ 64"
    by (simp add: sub64_def u64_def)
  also have "\<dots> = p - base"
    using p64 by (simp add: less_imp_diff_less)
  finally show ?thesis using b by (simp add: u32_def)
qed

text \<open>
  C5, as stated: every address outside the storage makes \<open>deallocate\<close> throw
  \<open>ArenaMemoryResourceCorruption\<close>. The address 4096 + 2^32 is outside the
  storage of the pool at 4096, and the call returns without an exception.
\<close>

theorem foreign_address_not_detected:
  "\<not> in_storage (numArenas wrap0) (arenaSize wrap0) (arenaData wrap0) 4294971392 \<and>
   fst (do_deallocate True wrap0 4294971392 0 16) = Inr ()"
  unfolding wrap0_eq by (simp add: in_storage_def dealloc_eval)

text \<open>
  C5, amended: with exceptions enabled, \<open>deallocate\<close> of either engine throws
  \<open>ArenaMemoryResourceCorruption\<close> exactly when the offset of the address from the
  start of the storage, reduced to 64 and then to 32 bits, is at least
  \<open>numArenas * arenaSize\<close> (equivalently, when the arena id computed from that
  reduced offset is at least \<open>numArenas\<close>). No address inside the storage throws.
\<close>

theorem corruption_iff_truncated_offset:
  "(0 < arenaSize s \<longrightarrow>
      (fst (do_deallocate True s p b a) = Inl (ArenaMemoryResourceCorruption p b a)) =
      (numArenas s * arenaSize s \<le> u32 (sub64 p (arenaData s)))) \<and>
   (0 < s_arenaSize t \<longrightarrow>
      (fst (sync_do_deallocate True t p b a) = Inl (ArenaMemoryResourceCorruption p b a)) =
      (s_numArenas t * s_arenaSize t \<le> u32 (sub64 p (s_arenaData t)))) \<and>
   (wf_geometry (numArenas s) (arenaSize s) (arenaData s) \<and>
    in_storage (numArenas s) (arenaSize s) (arenaData s) p \<longrightarrow>
      fst (do_deallocate True s p b a) \<noteq> Inl (ArenaMemoryResourceCorruption p b a)) \<and>
   (wf_geometry (s_numArenas t) (s_arenaSize t) (s_arenaData t) \<and>
    in_storage (s_numArenas t) (s_arenaSize t) (s_arenaData t) p \<longrightarrow>
      fst (sync_do_deallocate True t p b a) \<noteq> Inl (ArenaMemoryResourceCorruption p b a))"
proof (intro conjI impI)
  assume "0 < arenaSize s"
  then show "(fst (do_deallocate True s p b a) = Inl (ArenaMemoryResourceCorruption p b a)) =
      (numArenas s * arenaSize s \<le> u32 (sub64 p (arenaData s)))"
    by (auto simp: do_deallocate_def Let_def arenaIdOf_def arenaId_ge_iff releaseArena_def
        split: sum.splits if_splits)
next
  assume "0 < s_arenaSize t"
  then show "(fst (sync_do_deallocate True t p b a) = Inl (ArenaMemoryResourceCorruption p b a)) =
      (s_numArenas t * s_arenaSize t \<le> u32 (sub64 p (s_arenaData t)))"
    by (auto simp: sync_do_deallocate_def Let_def arenaIdOf_def arenaId_ge_iff
        sync_releaseArena_def split: sum.splits if_splits)
next
  assume h: "wf_geometry (numArenas s) (arenaSize s) (arenaData s) \<and>
    in_storage (numArenas s) (arenaSize s) (arenaData s) p"
  then have "u32 (sub64 p (arenaData s)) = p - arenaData s"
    by (blast intro: offset_in_storage)
  moreover from h have "p - arenaData s < numArenas s * arenaSize s" "0 < arenaSize s"
    by (auto simp: in_storage_def wf_geometry_def)
  ultimately show "fst (do_deallocate True s p b a) \<noteq> Inl (ArenaMemoryResourceCorruption p b a)"
    by (auto simp: do_deallocate_def Let_def arenaIdOf_def arenaId_ge_iff releaseArena_def
        split: sum.splits if_splits)
next
  assume h: "wf_geometry (s_numArenas t) (s_arenaSize t) (s_arenaData t) \<and>
    in_storage (s_numArenas t) (s_arenaSize t) (s_arenaData t) p"
  then have "u32 (sub64 p (s_arenaData t)) = p - s_arenaData t"
    by (blast intro: offset_in_storage)
  moreover from h have "p - s_arenaData t < s_numArenas t * s_arenaSize t" "0 < s_arenaSize t"
    by (auto simp: in_storage_def wf_geometry_def)
  ultimately
  show "fst (sync_do_deallocate True t p b a) \<noteq> Inl (ArenaMemoryResourceCorruption p b a)"
    by (auto simp: sync_do_deallocate_def Let_def arenaIdOf_def arenaId_ge_iff
        sync_releaseArena_def split: sum.splits if_splits)
qed

text \<open>
  The amended statement at the two-arena pools: the first address past the storage,
  4608, throws in both engines, and the address 4100 inside the storage does not.
\<close>

theorem corruption_iff_truncated_offset_witness:
  "0 < arenaSize wrap0 \<and> 0 < s_arenaSize sync0 \<and>
   numArenas wrap0 * arenaSize wrap0 \<le> u32 (sub64 4608 (arenaData wrap0)) \<and>
   fst (do_deallocate True wrap0 4608 0 16) = Inl (ArenaMemoryResourceCorruption 4608 0 16) \<and>
   s_numArenas sync0 * s_arenaSize sync0 \<le> u32 (sub64 4608 (s_arenaData sync0)) \<and>
   fst (sync_do_deallocate True sync0 4608 0 16) = Inl (ArenaMemoryResourceCorruption 4608 0 16) \<and>
   wf_geometry (numArenas wrap0) (arenaSize wrap0) (arenaData wrap0) \<and>
   in_storage (numArenas wrap0) (arenaSize wrap0) (arenaData wrap0) 4100 \<and>
   fst (do_deallocate True wrap0 4100 0 16) \<noteq> Inl (ArenaMemoryResourceCorruption 4100 0 16) \<and>
   wf_geometry (s_numArenas sync0) (s_arenaSize sync0) (s_arenaData sync0) \<and>
   in_storage (s_numArenas sync0) (s_arenaSize sync0) (s_arenaData sync0) 4100 \<and>
   fst (sync_do_deallocate True sync0 4100 0 16) \<noteq> Inl (ArenaMemoryResourceCorruption 4100 0 16)"
proof -
  have g: "0 < arenaSize wrap0" "0 < s_arenaSize sync0"
    "wf_geometry (numArenas wrap0) (arenaSize wrap0) (arenaData wrap0)"
    "in_storage (numArenas wrap0) (arenaSize wrap0) (arenaData wrap0) 4100"
    "wf_geometry (s_numArenas sync0) (s_arenaSize sync0) (s_arenaData sync0)"
    "in_storage (s_numArenas sync0) (s_arenaSize sync0) (s_arenaData sync0) 4100"
    by (simp_all add: wrap0_eq sync0_eq wf_geometry_def in_storage_def)
  have o: "numArenas wrap0 * arenaSize wrap0 \<le> u32 (sub64 4608 (arenaData wrap0))"
    "s_numArenas sync0 * s_arenaSize sync0 \<le> u32 (sub64 4608 (s_arenaData sync0))"
    by (simp_all add: wrap0_eq sync0_eq sub64_def u32_def u64_def)
  note t1 = corruption_iff_truncated_offset [of wrap0 4608 0 16 sync0]
  note t2 = corruption_iff_truncated_offset [of wrap0 4100 0 16 sync0]
  have "fst (do_deallocate True wrap0 4608 0 16) = Inl (ArenaMemoryResourceCorruption 4608 0 16)"
    using t1 g(1) o(1) by blast
  moreover
  have "fst (sync_do_deallocate True sync0 4608 0 16) = Inl (ArenaMemoryResourceCorruption 4608 0 16)"
    using t1 g(2) o(2) by blast
  moreover
  have "fst (do_deallocate True wrap0 4100 0 16) \<noteq> Inl (ArenaMemoryResourceCorruption 4100 0 16)"
    using t2 g(3,4) by blast
  moreover
  have "fst (sync_do_deallocate True sync0 4100 0 16) \<noteq> Inl (ArenaMemoryResourceCorruption 4100 0 16)"
    using t2 g(5,6) by blast
  ultimately show ?thesis
    using g o by blast
qed

section \<open>Deallocation: the counter wraps\<close>

lemma sub32_zero_one: "sub32 0 (Suc 0) = 4294967295"
  by (simp add: sub32_def u32_def)

text \<open>
  C9, as stated: once a deallocation has wrapped the counter of an empty arena to
  2^32 - 1, the arena never reaches zero again and is never released to the free
  list. In the pool \<open>wrap0\<close> the deallocation leaves the counter of arena 0 at
  4294967295; the next allocation in that arena increments it to 0; after one more
  allocation there, an allocation from arena 1 and the deallocation of the address 4320,
  the counter of arena 0 is 0 again and arena 0 is on the free list.
\<close>

theorem wrapped_counter_returns_to_zero:
  "numAllocationsInArena wrap0 ! 0 = 0 \<and>
   numAllocationsInArena wrap1 ! 0 = 4294967295 \<and>
   numAllocationsInArena wrap2 ! 0 = 0 \<and>
   fst (do_allocate True wrap2 16 16) = Inr 4320 \<and>
   activeArenaId wrap4 = 1 \<and> freeListHead wrap4 = 0 \<and>
   fst (do_deallocate True wrap4 4320 16 16) = Inr () \<and>
   numAllocationsInArena wrap5 ! 0 = 0 \<and>
   freeListHead wrap5 = 1 \<and> freeList wrap5 ! 0 = 0"
  unfolding wrap3_res wrap5_res
  unfolding wrap0_eq wrap1_eq wrap2_eq wrap4_eq wrap5_eq
  by simp

text \<open>
  C9, amended: in the unsynchronized engine a deallocation whose arena id is below
  \<open>numArenas\<close> (with a counter array of \<open>numArenas\<close> entries and a free list that is
  not full) throws nothing and leaves the counter of that arena at its old value minus
  one modulo 2^32; when the counter was 0 it becomes 2^32 - 1 and that call
  changes neither the free list nor the active arena.
\<close>

theorem deallocate_decrements_modulo:
  assumes "0 < arenaSize s"
    and "arenaIdOf (arenaData s) (arenaSize s) p < numArenas s"
    and "length (numAllocationsInArena s) = numArenas s"
    and "freeListHead s < numArenas s"
  shows "fst (do_deallocate ee s p b a) = Inr () \<and>
         numAllocationsInArena (snd (do_deallocate ee s p b a)) !
             arenaIdOf (arenaData s) (arenaSize s) p =
           sub32 (numAllocationsInArena s ! arenaIdOf (arenaData s) (arenaSize s) p) 1 \<and>
         (numAllocationsInArena s ! arenaIdOf (arenaData s) (arenaSize s) p = 0 \<longrightarrow>
            numAllocationsInArena (snd (do_deallocate ee s p b a)) !
                arenaIdOf (arenaData s) (arenaSize s) p = 4294967295 \<and>
            freeListHead (snd (do_deallocate ee s p b a)) = freeListHead s \<and>
            freeList (snd (do_deallocate ee s p b a)) = freeList s \<and>
            activeArenaId (snd (do_deallocate ee s p b a)) = activeArenaId s)"
proof -
  let ?i = "arenaIdOf (arenaData s) (arenaSize s) p"
  let ?n = "sub32 (numAllocationsInArena s ! ?i) 1"
  consider (A) "?n \<noteq> 0" | (B) "?n = 0" "?i = activeArenaId s"
    | (C) "?n = 0" "?i \<noteq> activeArenaId s"
    by blast
  then show ?thesis
  proof cases
    case A
    with assms show ?thesis
      by (simp add: do_deallocate_def Let_def sub32_zero_one)
  next
    case B
    with assms show ?thesis
      by (auto simp: do_deallocate_def Let_def resetActiveArena_def sub32_zero_one)
  next
    case C
    with assms show ?thesis
      by (auto simp: do_deallocate_def Let_def releaseArena_def sub32_zero_one)
  qed
qed

theorem deallocate_decrements_modulo_witness:
  "0 < arenaSize wrap0 \<and>
   arenaIdOf (arenaData wrap0) (arenaSize wrap0) 4096 = 0 \<and>
   numArenas wrap0 = 2 \<and>
   length (numAllocationsInArena wrap0) = 2 \<and>
   freeListHead wrap0 = 1 \<and>
   numAllocationsInArena wrap0 ! 0 = 0 \<and>
   fst (do_deallocate True wrap0 4096 0 16) = Inr () \<and>
   numAllocationsInArena (snd (do_deallocate True wrap0 4096 0 16)) ! 0 = 4294967295 \<and>
   freeListHead (snd (do_deallocate True wrap0 4096 0 16)) = 1 \<and>
   freeList (snd (do_deallocate True wrap0 4096 0 16)) = freeList wrap0 \<and>
   activeArenaId (snd (do_deallocate True wrap0 4096 0 16)) = activeArenaId wrap0"
proof -
  have i: "arenaIdOf (arenaData wrap0) (arenaSize wrap0) 4096 = 0"
    by (simp add: wrap0_eq arenaIdOf_def sub64_def u32_def u64_def)
  have g: "0 < arenaSize wrap0" "numArenas wrap0 = 2"
    "length (numAllocationsInArena wrap0) = 2" "freeListHead wrap0 = 1"
    "numAllocationsInArena wrap0 ! 0 = 0"
    by (simp_all add: wrap0_eq)
  show ?thesis
    using deallocate_decrements_modulo [of wrap0 4096 True 0 16] i g by simp
qed

section \<open>The statistics resource\<close>

lemma sum_list_replicate_nth_zero:
  "sum_list (map (\<lambda>i. replicate n (0::nat) ! i) [0 ..< n]) = 0"
  by (simp add: sum_list_eq_0_iff)

lemma numberOfAllocations_initial: "numberOfAllocations (initializeArenas n sz base) = 0"
proof -
  have "allocationsInArena (initializeArenas n sz base) = (\<lambda>i. replicate n 0 ! i)"
    by (auto simp: initializeArenas_def reserveNextArena_def Let_def allocationsInArena_def)
  moreover have "numArenas (initializeArenas n sz base) = n"
    by (simp add: initializeArenas_def reserveNextArena_def Let_def)
  ultimately show ?thesis
    by (simp add: numberOfAllocations_def u64_def sum_list_replicate_nth_zero)
qed

text \<open>
  C10. In the statistics resource every \<open>allocate(0, a)\<close> returns the null pointer,
  leaves the arenas as they are, stores the entry (null, 0) in the address map and
  updates both high-water marks. On a freshly constructed resource the map grows from no
  entry to one and \<open>maxNumberOfAllocations\<close> to 1 while \<open>numberOfAllocations\<close> is 0.
\<close>

theorem zero_byte_allocation_is_recorded:
  "stats_do_allocate ee st 0 a =
     (Inr 0,
      st\<lparr>addressToBytesMap := map_assign 0 0 (addressToBytesMap st),
         maxBusyArenas := max (maxBusyArenas st) (numberOfBusyArenas (base_pool st)),
         maxNumberOfAllocations :=
           max (maxNumberOfAllocations st) (length (map_assign 0 0 (addressToBytesMap st)))\<rparr>) \<and>
   (0, 0) \<in> set (map_assign 0 0 (addressToBytesMap st)) \<and>
   (let st0 = \<lparr>base_pool = initializeArenas n sz base, addressToBytesMap = [],
                maxBusyArenas = 0, maxNumberOfAllocations = 0\<rparr>;
        st1 = snd (stats_do_allocate ee st0 0 a)
    in length (addressToBytesMap st0) = 0 \<and> length (addressToBytesMap st1) = 1 \<and>
       maxNumberOfAllocations st1 = 1 \<and> numberOfAllocations (base_pool st1) = 0)"
proof -
  have in_map: "(0, 0) \<in> set (map_assign 0 0 m)" for m
    by (induction m) auto
  show ?thesis
    by (simp add: stats_do_allocate_def do_allocate_def u32_def Let_def in_map
        numberOfAllocations_initial)
qed

section \<open>The histogram and the percentile\<close>

lemma hist_incr_keys: "fst ` set (hist_incr k h) = insert k (fst ` set h)"
proof (induction h)
  case Nil
  then show ?case by simp
next
  case (Cons e h)
  obtain k' c where e: "e = (k', c)" by (cases e)
  from Cons show ?case
    by (cases "k < k'"; cases "k = k'") (simp_all add: e insert_commute)
qed

lemma hist_incr_sorted:
  "sorted_wrt (<) (map fst h) \<Longrightarrow> sorted_wrt (<) (map fst (hist_incr k h))"
proof (induction h)
  case Nil
  then show ?case by simp
next
  case (Cons e h)
  obtain k' c where e: "e = (k', c)" by (cases e)
  have "\<forall>x \<in> fst ` set (hist_incr k h). k' < x" if "k' < k"
    using Cons.prems that unfolding hist_incr_keys by (auto simp: e)
  with Cons show ?case
    by (cases "k < k'"; cases "k = k'") (auto simp: e)
qed

lemma hist_incr_sum:
  "list_all (\<lambda>e. snd e < 2 ^ 32 - 1) h \<Longrightarrow>
   sum_list (map snd (hist_incr k h)) = sum_list (map snd h) + 1"
  by (induction h) (auto simp: u32_def)

lemma hist_incr_pos:
  "list_all (\<lambda>e. 0 < snd e) h \<Longrightarrow> list_all (\<lambda>e. snd e < 2 ^ 32 - 1) h \<Longrightarrow>
   list_all (\<lambda>e. 0 < snd e) (hist_incr k h)"
  by (induction h) (auto simp: u32_def)

lemma histogram_snoc:
  "histogram (st\<lparr>addressToBytesMap := m @ [(p, sz)]\<rparr>) =
   hist_incr sz (histogram (st\<lparr>addressToBytesMap := m\<rparr>))"
  by (simp add: histogram_def)

lemma histogram_props:
  "length m < 2 ^ 32 \<Longrightarrow>
   sorted_wrt (<) (map fst (histogram (st\<lparr>addressToBytesMap := m\<rparr>))) \<and>
   fst ` set (histogram (st\<lparr>addressToBytesMap := m\<rparr>)) = snd ` set m \<and>
   sum_list (map snd (histogram (st\<lparr>addressToBytesMap := m\<rparr>))) = length m \<and>
   list_all (\<lambda>e. 0 < snd e) (histogram (st\<lparr>addressToBytesMap := m\<rparr>))"
proof (induction m rule: rev_induct)
  case Nil
  then show ?case by (simp add: histogram_def)
next
  case (snoc x m)
  obtain p sz where x: "x = (p, sz)" by (cases x)
  let ?h = "histogram (st\<lparr>addressToBytesMap := m\<rparr>)"
  from snoc.prems have len: "length m < 2 ^ 32 - 1" by simp
  with snoc.IH have ih: "sorted_wrt (<) (map fst ?h)" "fst ` set ?h = snd ` set m"
    "sum_list (map snd ?h) = length m" "list_all (\<lambda>e. 0 < snd e) ?h"
    by simp_all
  have small: "list_all (\<lambda>e. snd e < 2 ^ 32 - 1) ?h"
    unfolding list_all_iff
  proof
    fix e assume "e \<in> set ?h"
    then have "snd e \<le> sum_list (map snd ?h)"
      by (simp add: member_le_sum_list)
    with ih(3) len show "snd e < 2 ^ 32 - 1" by simp
  qed
  show ?case
    unfolding x histogram_snoc
    using ih small by (simp add: hist_incr_sorted hist_incr_keys hist_incr_sum hist_incr_pos)
qed

subsection \<open>The loop\<close>

lemma percentile_loop_done:
  "\<not> acc < u \<Longrightarrow> percentile_loop u acc (Some k) h = Inr k"
  by (cases h) auto

lemma percentile_loop_reaches:
  "acc < u \<Longrightarrow> u \<le> acc + sum_list (map snd h) \<Longrightarrow> acc + sum_list (map snd h) < 2 ^ 64 \<Longrightarrow>
   \<exists>front k c rest. h = front @ (k, c) # rest \<and>
     acc + sum_list (map snd front) < u \<and> u \<le> acc + sum_list (map snd front) + c \<and>
     percentile_loop u acc prev h = Inr k"
proof (induction h arbitrary: acc prev)
  case Nil
  then show ?case by simp
next
  case (Cons e h)
  obtain k c where e: "e = (k, c)" by (cases e)
  from Cons.prems have w: "u64 (acc + c) = acc + c"
    by (simp add: u64_def e)
  show ?case
  proof (cases "u \<le> acc + c")
    case True
    then have "percentile_loop u acc prev (e # h) = Inr k"
      using Cons.prems(1) by (simp add: e w percentile_loop_done)
    with True Cons.prems(1) show ?thesis
      unfolding e by (intro exI [of _ "[]"] exI [of _ k] exI [of _ c] exI [of _ h]) simp
  next
    case False
    then have lt: "acc + c < u" by simp
    from Cons.prems have "u \<le> (acc + c) + sum_list (map snd h)"
      "(acc + c) + sum_list (map snd h) < 2 ^ 64"
      by (simp_all add: e)
    from Cons.IH [OF lt this, of "Some k"] obtain front k' c' rest where
      f: "h = front @ (k', c') # rest" "acc + c + sum_list (map snd front) < u"
         "u \<le> acc + c + sum_list (map snd front) + c'"
         "percentile_loop u (acc + c) (Some k) h = Inr k'"
      by blast
    have "percentile_loop u acc prev (e # h) = Inr k'"
      using Cons.prems(1) f(4) by (simp add: e w)
    with f show ?thesis
      unfolding e by (intro exI [of _ "(k, c) # front"] exI [of _ k'] exI [of _ c'] exI [of _ rest]) simp
  qed
qed


subsection \<open>The query\<close>

lemma histogram_of:
  assumes "length (addressToBytesMap st) < 2 ^ 32"
  shows "sorted_wrt (<) (map fst (histogram st))"
    and "fst ` set (histogram st) = snd ` set (addressToBytesMap st)"
    and "sum_list (map snd (histogram st)) = length (addressToBytesMap st)"
    and "list_all (\<lambda>e. 0 < snd e) (histogram st)"
  using histogram_props [OF assms, of st] by simp_all

subsection \<open>The rounded product\<close>

lemmas dbl_eval =
  upperLimit_def dbl_of_size_def dbl_round_def round_nearest_even_def Let_def bit_length.simps

text \<open>
  The product is rounded before it is truncated. \<^verbatim>\<open>0.6\<close> is the \<^verbatim>\<open>double\<close>
  \<open>5404319552844595 \<cdot> 2^-53\<close>, below 6/10, and its product with 5 rounds to 3;
  \<^verbatim>\<open>0.29\<close> is \<open>5224175567749775 \<cdot> 2^-54\<close> and its product with 100 rounds to a
  \<^verbatim>\<open>double\<close> below 29; \<^verbatim>\<open>0.05\<close> is \<open>7205759403792794 \<cdot> 2^-57\<close> and its product
  with 12 is below 1.
\<close>

lemma upperLimit_rounds_product:
  "upperLimit (Finite False 5404319552844595 (- 53)) 5 = Some 3 \<and>
   upperLimit (Finite False 5224175567749775 (- 54)) 100 = Some 28 \<and>
   upperLimit (Finite False 7205759403792794 (- 57)) 12 = Some 0"
  by (simp add: dbl_eval)

lemma bit_length_le_iff: "bit_length n \<le> b \<longleftrightarrow> n < 2 ^ b"
proof (induction n arbitrary: b rule: bit_length.induct)
  case (1 n)
  show ?case
  proof (cases "n = 0")
    case True
    then show ?thesis by (simp add: bit_length.simps)
  next
    case False
    show ?thesis
    proof (cases b)
      case 0
      with False show ?thesis by (simp add: bit_length.simps)
    next
      case (Suc b')
      have "bit_length n = Suc (bit_length (n div 2))"
        using False by (subst bit_length.simps) simp
      moreover have "n div 2 < 2 ^ b' \<longleftrightarrow> n < 2 ^ Suc b'"
        by (simp add: less_mult_imp_div_less div_less_iff_less_mult mult.commute)
      ultimately show ?thesis
        using "1.IH" [OF False, of b'] Suc by simp
    qed
  qed
qed

lemma round_nearest_even_zero: "round_nearest_even n 0 = n"
  by (simp add: round_nearest_even_def)

lemma round_nearest_even_exact: "round_nearest_even (a * 2 ^ k) k = a"
  by (simp add: round_nearest_even_def)

lemma round_nearest_even_le:
  assumes "n \<le> M * 2 ^ k"
  shows "round_nearest_even n k \<le> M"
proof -
  define q where "q = n div 2 ^ k"
  define r where "r = n mod 2 ^ k"
  have n: "n = q * 2 ^ k + r"
    using div_mult_mod_eq [of n "2 ^ k"] by (simp add: q_def r_def)
  have qM: "q \<le> M"
  proof -
    have "q = n div 2 ^ k" by (simp add: q_def)
    also have "\<dots> \<le> (M * 2 ^ k) div 2 ^ k" by (rule div_le_mono [OF assms])
    finally show ?thesis by simp
  qed
  show ?thesis
  proof (cases "r = 0")
    case True
    then show ?thesis
      using qM by (simp add: round_nearest_even_def q_def [symmetric] r_def [symmetric])
  next
    case False
    have "q < M"
    proof (rule ccontr)
      assume "\<not> q < M"
      with qM have "q = M" by simp
      with n False assms show False by simp
    qed
    then show ?thesis
      by (simp add: round_nearest_even_def Let_def q_def [symmetric])
  qed
qed

lemma dbl_of_size_exact:
  assumes "T < 2 ^ 53"
  shows "dbl_of_size T = Finite False T 0"
proof -
  have b: "bit_length T \<le> 53" using assms by (simp add: bit_length_le_iff)
  then have "max (bit_length T - 53) (nat (- 1074 - 0)) = 0" by simp
  then show ?thesis
    using b by (simp add: dbl_of_size_def dbl_round_def Let_def round_nearest_even_zero)
qed

lemma upperLimit_shape:
  assumes T: "T < 2 ^ 53" and m: "m \<le> 2 ^ j"
  defines "k \<equiv> max (bit_length (m * T) - 53) (nat (int j - 1074))"
  shows "k \<le> j"
    and "upperLimit (Finite False m (- int j)) T =
           Some (round_nearest_even (m * T) k div 2 ^ (j - k))"
    and "round_nearest_even (m * T) k div 2 ^ (j - k) \<le> T"
proof -
  have "m * T \<le> 2 ^ j * T" using m by simp
  also have "\<dots> < 2 ^ j * 2 ^ 53" using T by simp
  finally have n_lt: "m * T < 2 ^ (j + 53)" by (simp add: power_add)
  then have "bit_length (m * T) \<le> j + 53" by (simp add: bit_length_le_iff)
  then have "bit_length (m * T) - 53 \<le> j" by linarith
  moreover have "nat (int j - 1074) \<le> j" by linarith
  ultimately show kj: "k \<le> j" by (simp add: k_def)
  define m' where "m' = round_nearest_even (m * T) k"
  have pw: "2 ^ (j - k) * 2 ^ k = (2::nat) ^ j"
    using kj by (simp add: power_add [symmetric])
  have "T * 2 ^ (j - k) * 2 ^ k = T * (2 ^ (j - k) * 2 ^ k)"
    by (rule mult.assoc)
  also have "\<dots> = T * 2 ^ j" by (simp only: pw)
  finally have "T * 2 ^ (j - k) * 2 ^ k = T * 2 ^ j" .
  moreover have "m * T \<le> T * 2 ^ j" using m by (simp add: mult.commute)
  ultimately have "m * T \<le> T * 2 ^ (j - k) * 2 ^ k" by (simp only:)
  then have m'_le: "m' \<le> T * 2 ^ (j - k)"
    unfolding m'_def by (rule round_nearest_even_le)
  also have "\<dots> < 2 ^ 53 * 2 ^ (j - k)" using T by simp
  finally have "m' < 2 ^ (53 + (j - k))" by (simp add: power_add)
  then have bl: "bit_length m' \<le> 53 + (j - k)" by (simp add: bit_length_le_iff)
  have e': "- int j + int k = - int (j - k)" using kj by simp
  have no_inf: "\<not> (m' \<noteq> 0 \<and> 1024 < int (bit_length m') + (- int j + int k))"
    using bl kj by linarith
  have kk: "max (bit_length (m * T) - 53) (nat (- 1074 - (- int j + 0))) = k"
    by (simp add: k_def)
  have "dbl_times (Finite False m (- int j)) (dbl_of_size T) = dbl_round False (m * T) (- int j + 0)"
    by (simp only: dbl_of_size_exact [OF T] dbl_times.simps simp_thms)
  also have "\<dots> = Finite False m' (- int j + 0 + int k)"
    unfolding dbl_round_def Let_def kk m'_def [symmetric] using no_inf by simp
  also have "- int j + 0 + int k = - int (j - k)" using kj by simp
  finally have prod:
    "dbl_times (Finite False m (- int j)) (dbl_of_size T) = Finite False m' (- int (j - k))" .
  have t: "(if 0 \<le> - int (j - k) then m' * 2 ^ nat (- int (j - k))
            else m' div 2 ^ nat (- (- int (j - k)))) = m' div 2 ^ (j - k)"
  proof (cases "j - k = 0")
    case True
    then show ?thesis by simp
  next
    case False
    then have "\<not> 0 \<le> - int (j - k)" by linarith
    moreover have "nat (- (- int (j - k))) = j - k" by (simp only: minus_minus nat_int)
    ultimately show ?thesis by (simp only: if_False)
  qed
  have "m' div 2 ^ (j - k) \<le> T * 2 ^ (j - k) div 2 ^ (j - k)"
    by (rule div_le_mono [OF m'_le])
  then show le: "round_nearest_even (m * T) k div 2 ^ (j - k) \<le> T"
    by (simp add: m'_def)
  have "(2::nat) ^ 53 < 2 ^ 64" by simp
  with le T have "\<not> 2 ^ 64 \<le> m' div 2 ^ (j - k)"
    unfolding m'_def by linarith
  then have "to_size (Finite False m' (- int (j - k))) = Some (m' div 2 ^ (j - k))"
    unfolding to_size.simps t Let_def by simp
  then show "upperLimit (Finite False m (- int j)) T =
           Some (round_nearest_even (m * T) k div 2 ^ (j - k))"
    unfolding upperLimit_def prod m'_def .
qed

lemma upperLimit_le:
  assumes "T < 2 ^ 53" and "m \<le> 2 ^ j"
  shows "\<exists>L. upperLimit (Finite False m (- int j)) T = Some L \<and> L \<le> T"
  using upperLimit_shape(2,3) [OF assms] by blast

lemma upperLimit_one:
  assumes T: "T < 2 ^ 53"
  shows "upperLimit (Finite False (2 ^ j) (- int j)) T = Some T"
proof -
  define k where "k = max (bit_length (2 ^ j * T) - 53) (nat (int j - 1074))"
  note s = upperLimit_shape [OF T order_refl, of j, folded k_def]
  have "2 ^ (j - k) * 2 ^ k = (2::nat) ^ j"
    using s(1) by (simp add: power_add [symmetric])
  then have "2 ^ j * T = T * 2 ^ (j - k) * 2 ^ k"
    by (simp add: mult.assoc mult.commute)
  then have "round_nearest_even (2 ^ j * T) k = T * 2 ^ (j - k)"
    by (simp only: round_nearest_even_exact)
  then have "round_nearest_even (2 ^ j * T) k div 2 ^ (j - k) = T"
    by (simp only: div_mult_self_is_m zero_less_power zero_less_numeral)
  then show ?thesis
    unfolding s(2) by (simp only:)
qed

lemma upperLimit_half:
  assumes T: "T < 2 ^ 53"
  shows "upperLimit (Finite False 1 (- 1)) T = Some (T div 2)"
proof -
  have "bit_length T \<le> 53" using T by (simp add: bit_length_le_iff)
  then have k: "max (bit_length (1 * T) - 53) (nat (int 1 - 1074)) = 0" by simp
  have "upperLimit (Finite False 1 (- int 1)) T =
      Some (round_nearest_even (1 * T) 0 div 2 ^ (1 - 0))"
    using upperLimit_shape(2) [OF T, of 1 1] unfolding k by simp
  then show ?thesis
    by (simp add: round_nearest_even_zero)
qed

subsection \<open>The comparisons\<close>

lemma dbl_value_pos: "0 < dbl_value s m e \<longleftrightarrow> \<not> s \<and> 0 < m"
  by (auto simp: dbl_value_def zero_less_mult_iff mult_less_0_iff)

lemma less_zero_iff: "less_zero (Finite s m e) \<longleftrightarrow> dbl_value s m e < 0"
  by (auto simp: dbl_value_def zero_less_mult_iff mult_less_0_iff)

lemma equals_zero_iff: "equals_zero (Finite s m e) \<longleftrightarrow> dbl_value s m e = 0"
  by (auto simp: dbl_value_def)

lemma one_less_iff: "one_less (Finite s m e) \<longleftrightarrow> 1 < dbl_value s m e"
proof (cases s)
  case True
  have "dbl_value True m e \<le> 0"
    by (simp add: dbl_value_def mult_le_0_iff)
  with True show ?thesis by auto
next
  case False
  show ?thesis
  proof (cases "0 \<le> e")
    case True
    have "(1 < m * 2 ^ nat e) = (1 < real m * 2 ^ nat e)"
      using of_nat_less_iff [where ?'a = real, of 1 "m * 2 ^ nat e"] by simp
    with False True show ?thesis by (simp add: dbl_value_def)
  next
    case e: False
    have "(2 ^ nat (- e) < m) = ((2::real) ^ nat (- e) < real m)"
      using of_nat_less_iff [where ?'a = real, of "2 ^ nat (- e)" m] by simp
    with False e show ?thesis by (simp add: dbl_value_def field_simps)
  qed
qed

lemma unit_repr:
  assumes "0 < dbl_value s m e" and "dbl_value s m e \<le> 1"
  shows "\<not> s" and "0 < m" and "\<exists>j. e = - int j \<and> m \<le> 2 ^ j"
proof -
  from assms(1) show s: "\<not> s" and m: "0 < m" by (simp_all add: dbl_value_pos)
  from assms(2) have "\<not> 1 < dbl_value s m e" by simp
  then have nl: "\<not> one_less (Finite s m e)" unfolding one_less_iff .
  show "\<exists>j. e = - int j \<and> m \<le> 2 ^ j"
  proof (cases "0 \<le> e")
    case True
    with nl s have le: "m * 2 ^ nat e \<le> 1" by simp
    have "nat e = 0"
    proof (rule ccontr)
      assume "nat e \<noteq> 0"
      then have "(2::nat) \<le> 2 ^ nat e" by (cases "nat e") simp_all
      with m have "2 \<le> m * 2 ^ nat e"
        using mult_le_mono [of 1 m 2 "2 ^ nat e"] by simp
      with le show False by simp
    qed
    with True le have "e = - int 0 \<and> m \<le> 2 ^ 0" by simp
    then show ?thesis by blast
  next
    case False
    with nl s have "m \<le> 2 ^ nat (- e)" by simp
    moreover from False have "e = - int (nat (- e))" by simp
    ultimately show ?thesis by blast
  qed
qed

lemma one_repr:
  assumes "dbl_value s m e = 1"
  shows "\<exists>j. Finite s m e = Finite False (2 ^ j) (- int j)"
proof -
  from assms have pos: "0 < dbl_value s m e" and le: "dbl_value s m e \<le> 1" by simp_all
  from unit_repr [OF pos le] obtain j where s: "\<not> s" and j: "e = - int j" "m \<le> 2 ^ j"
    by blast
  have "real m = 2 ^ j"
  proof (cases "j = 0")
    case True
    with assms s j show ?thesis by (simp add: dbl_value_def)
  next
    case False
    with assms s j show ?thesis by (simp add: dbl_value_def field_simps)
  qed
  then have "m = 2 ^ j"
    using of_nat_eq_iff [where ?'a = real, of m "2 ^ j"] by simp
  with s j show ?thesis by simp
qed

subsection \<open>The value of the query\<close>

lemma percentile_zero:
  assumes "dbl_value s m e \<le> 0 \<or> addressToBytesMap st = []"
  shows "percentile st (Finite s m e) = Inr 0"
proof (cases "dbl_value s m e \<le> 0")
  case True
  then have "less_zero (Finite s m e) \<or> equals_zero (Finite s m e)"
    unfolding less_zero_iff equals_zero_iff by linarith
  then have "equals_zero (clamp_unit (Finite s m e))"
    by (auto simp: clamp_unit_def)
  then show ?thesis
    by (simp add: percentile_def)
next
  case False
  with assms have "addressToBytesMap st = []" by simp
  then show ?thesis
    by (simp add: percentile_def Let_def histogram_def u64_def)
qed

lemma percentile_unfold:
  assumes "length (addressToBytesMap st) < 2 ^ 32" and "addressToBytesMap st \<noteq> []"
    and "\<not> equals_zero pc" and "clamp_unit (Finite s m e) = pc"
  shows "percentile st (Finite s m e) =
     (case upperLimit (clamp_unit (Finite s m e)) (length (addressToBytesMap st)) of
        None \<Rightarrow> Inl UndefinedBehaviour
      | Some upper \<Rightarrow> percentile_loop upper 0 None (histogram st))"
proof -
  have "u64 (length (addressToBytesMap st)) = length (addressToBytesMap st)"
    using assms(1) by (simp add: u64_def)
  with assms show ?thesis
    by (simp add: percentile_def Let_def histogram_of(3))
qed

lemma percentile_reaches:
  assumes len: "length (addressToBytesMap st) < 2 ^ 32"
    and ne: "addressToBytesMap st \<noteq> []"
    and cl: "clamp_unit (Finite s m e) = pc" and nz: "\<not> equals_zero pc"
    and up: "upperLimit pc (length (addressToBytesMap st)) = Some L"
    and L: "1 \<le> L" "L \<le> length (addressToBytesMap st)"
  shows "\<exists>front k c rest. histogram st = front @ (k, c) # rest \<and>
           sum_list (map snd front) < L \<and> L \<le> sum_list (map snd front) + c \<and>
           percentile st (Finite s m e) = Inr k"
proof -
  have "0 < L" using L(1) by linarith
  moreover have "L \<le> 0 + sum_list (map snd (histogram st))"
    using L(2) by (simp add: histogram_of(3) [OF len])
  moreover have "0 + sum_list (map snd (histogram st)) < 2 ^ 64"
    using len by (simp add: histogram_of(3) [OF len])
  ultimately obtain front k c rest where
    "histogram st = front @ (k, c) # rest" "0 + sum_list (map snd front) < L"
    "L \<le> 0 + sum_list (map snd front) + c"
    "percentile_loop L 0 None (histogram st) = Inr k"
    using percentile_loop_reaches [of 0 L "histogram st" None] by blast
  then show ?thesis
    unfolding percentile_unfold [OF len ne nz cl] cl up by auto
qed

lemma small_count: "T < 2 ^ 32 \<Longrightarrow> T < 2 ^ 53" for T :: nat
proof -
  assume "T < 2 ^ 32"
  moreover have "(2::nat) ^ 32 < 2 ^ 53" by simp
  ultimately show ?thesis by linarith
qed

lemma percentile_one:
  assumes len: "length (addressToBytesMap st) < 2 ^ 32" and ne: "addressToBytesMap st \<noteq> []"
    and one: "1 \<le> dbl_value s m e"
  shows "percentile st (Finite s m e) = Inr (Max (snd ` set (addressToBytesMap st)))"
proof -
  let ?T = "length (addressToBytesMap st)"
  note T53 = small_count [OF len]
  obtain j where cl: "clamp_unit (Finite s m e) = Finite False (2 ^ j) (- int j)"
  proof (cases "1 < dbl_value s m e")
    case True
    then have "one_less (Finite s m e)" "\<not> less_zero (Finite s m e)"
      unfolding one_less_iff less_zero_iff by simp_all
    then have "clamp_unit (Finite s m e) = Finite False (2 ^ 0) (- int 0)"
      unfolding clamp_unit_def by (simp del: one_less.simps less_zero.simps)
    then show ?thesis by (rule that)
  next
    case False
    with one have v: "dbl_value s m e = 1" by simp
    then have "\<not> one_less (Finite s m e)" "\<not> less_zero (Finite s m e)"
      unfolding one_less_iff less_zero_iff by simp_all
    then have "clamp_unit (Finite s m e) = Finite s m e"
      unfolding clamp_unit_def by (simp del: one_less.simps less_zero.simps)
    with one_repr [OF v] show ?thesis using that by auto
  qed
  have nz: "\<not> equals_zero (Finite False (2 ^ j) (- int j))" by simp
  have T: "1 \<le> ?T" using ne by (cases "addressToBytesMap st") simp_all
  from percentile_reaches [OF len ne cl nz upperLimit_one [OF T53] T order_refl]
  obtain front k c rest where
    h: "histogram st = front @ (k, c) # rest" and lt: "sum_list (map snd front) < ?T"
    and ge: "?T \<le> sum_list (map snd front) + c" and r: "percentile st (Finite s m e) = Inr k"
    by auto
  have "sum_list (map snd (histogram st)) = ?T" by (rule histogram_of(3) [OF len])
  then have "sum_list (map snd front) + c + sum_list (map snd rest) = ?T"
    by (simp add: h)
  with ge have "sum_list (map snd rest) = 0" by linarith
  moreover have "list_all (\<lambda>e. 0 < snd e) rest"
    using histogram_of(4) [OF len] by (simp add: h)
  ultimately have rest: "rest = []" by (cases rest) auto
  have "sorted_wrt (<) (map fst (front @ [(k, c)]))"
    using histogram_of(1) [OF len] by (simp add: h rest)
  then have "\<forall>x \<in> fst ` set front. x < k"
    by (auto simp: sorted_wrt_append)
  then have "Max (fst ` set (histogram st)) = k"
    by (intro Max_eqI) (auto simp: h rest intro: less_imp_le)
  then show ?thesis
    using r unfolding histogram_of(2) [OF len] by simp
qed

lemma percentile_unit:
  assumes len: "length (addressToBytesMap st) < 2 ^ 32" and ne: "addressToBytesMap st \<noteq> []"
    and pos: "0 < dbl_value s m e" and le: "dbl_value s m e \<le> 1"
  shows "\<exists>L. upperLimit (Finite s m e) (length (addressToBytesMap st)) = Some L \<and>
           L \<le> length (addressToBytesMap st) \<and>
           (1 \<le> L \<longrightarrow>
              (\<exists>front k c rest. histogram st = front @ (k, c) # rest \<and>
                 sum_list (map snd front) < L \<and> L \<le> sum_list (map snd front) + c \<and>
                 percentile st (Finite s m e) = Inr k))"
proof -
  note T53 = small_count [OF len]
  from unit_repr [OF pos le] obtain j where r: "\<not> s" "0 < m" "e = - int j" "m \<le> 2 ^ j"
    by blast
  from upperLimit_le [OF T53 r(4)] obtain L where
    L: "upperLimit (Finite False m (- int j)) (length (addressToBytesMap st)) = Some L"
      "L \<le> length (addressToBytesMap st)"
    by blast
  have "\<not> one_less (Finite s m e)" "\<not> less_zero (Finite s m e)"
    unfolding one_less_iff less_zero_iff using pos le by simp_all
  then have "clamp_unit (Finite s m e) = Finite s m e"
    unfolding clamp_unit_def by (simp del: one_less.simps less_zero.simps)
  then have cl: "clamp_unit (Finite s m e) = Finite False m (- int j)"
    using r by simp
  have nz: "\<not> equals_zero (Finite False m (- int j))" using r(2) by simp
  have "\<exists>front k c rest. histogram st = front @ (k, c) # rest \<and>
          sum_list (map snd front) < L \<and> L \<le> sum_list (map snd front) + c \<and>
          percentile st (Finite s m e) = Inr k" if "1 \<le> L"
    by (rule percentile_reaches [OF len ne cl nz L(1) that L(2)])
  with L r show ?thesis by auto
qed

lemma percentile_key:
  assumes len: "length (addressToBytesMap st) < 2 ^ 32"
    and two: "2 \<le> length (addressToBytesMap st)"
  shows "\<exists>k \<in> snd ` set (addressToBytesMap st). percentile st (Finite False 1 (- 1)) = Inr k"
proof -
  let ?T = "length (addressToBytesMap st)"
  from two have ne: "addressToBytesMap st \<noteq> []" by auto
  have cl: "clamp_unit (Finite False 1 (- 1)) = Finite False 1 (- 1)"
    by (simp add: clamp_unit_def)
  have nz: "\<not> equals_zero (Finite False 1 (- 1))" by simp
  have L: "1 \<le> ?T div 2" "?T div 2 \<le> ?T" using two by simp_all
  from percentile_reaches [OF len ne cl nz upperLimit_half [OF small_count [OF len]] L]
  obtain front k c rest where
    h: "histogram st = front @ (k, c) # rest"
    and r: "percentile st (Finite False 1 (- 1)) = Inr k"
    by blast
  from h have "k \<in> fst ` set (histogram st)" by force
  then show ?thesis
    using r unfolding histogram_of(2) [OF len] by blast
qed

lemma stats4_map:
  "addressToBytesMap stats4 = [(4288, 24), (4312, 16), (4328, 16), (4344, 8)]"
  by (simp add: stats4_eq)

lemma upperLimit_half_of_four: "upperLimit (Finite False 1 (- 1)) 4 = Some 2"
  by (simp add: dbl_eval)

text \<open>
  C7, as stated: for \<open>p\<close> strictly between 0 and 1, \<open>percentile\<close> returns the size of
  the last histogram entry included when counts are accumulated until the running total
  would exceed \<open>p \<cdot> T\<close>. With live allocations of 8, 16, 16 and 24 bytes and
  \<open>p = 1/2\<close>, which is the \<^verbatim>\<open>double\<close> \<open>1 \<cdot> 2^-1\<close>, that rule gives 8; the code
  returns 16.
\<close>

theorem percentile_differs_from_stated_rule:
  "dbl_value False 1 (- 1) = 1 / 2 \<and>
   percentile stats4 (Finite False 1 (- 1)) = Inr 16 \<and> percentile_spec stats4 (1 / 2) = Some 8"
proof -
  have len: "length (addressToBytesMap stats4) < 2 ^ 32"
    and ne: "addressToBytesMap stats4 \<noteq> []"
    and four: "length (addressToBytesMap stats4) = 4"
    by (simp_all add: stats4_map)
  have cl: "clamp_unit (Finite False 1 (- 1)) = Finite False 1 (- 1)"
    by (simp add: clamp_unit_def)
  have nz: "\<not> equals_zero (Finite False 1 (- 1))" by simp
  have "percentile stats4 (Finite False 1 (- 1)) = percentile_loop 2 0 None (histogram stats4)"
    unfolding percentile_unfold [OF len ne nz cl] cl four upperLimit_half_of_four by simp
  then have "percentile stats4 (Finite False 1 (- 1)) = Inr 16"
    by (simp add: stats4_histogram u64_def)
  moreover have "percentile_spec stats4 (1 / 2) = Some 8"
    by (simp add: percentile_spec_def Let_def stats4_histogram)
  moreover have "dbl_value False 1 (- 1) = 1 / 2"
    by (simp add: dbl_value_def)
  ultimately show ?thesis by blast
qed

text \<open>
  C7, amended: with fewer than 2^32 entries in the address map, \<open>percentile\<close> returns 0
  when \<open>p \<le> 0\<close> or the map is empty; it returns the largest size in the map when
  \<open>p \<ge> 1\<close> and the map is not empty; and when \<open>0 < p \<le> 1\<close> the limit \<open>L\<close>, the
  \<^verbatim>\<open>double\<close> product of \<open>p\<close> and the number \<open>T\<close> of entries truncated to an integer, is
  at most \<open>T\<close>, and if \<open>L\<close> is at least 1 the result is the size of the first histogram
  entry, in ascending size order, at which the running count reaches \<open>L\<close>. With at least
  two entries, \<open>percentile(0.5) \<le> percentile(1.0)\<close>. Here \<open>p\<close> is the finite
  \<^verbatim>\<open>double\<close> of sign \<open>s\<close>, significand \<open>m\<close> and exponent \<open>e\<close>.
\<close>

theorem percentile_first_entry_reaching_limit:
  assumes len: "length (addressToBytesMap st) < 2 ^ 32"
  shows "(dbl_value s m e \<le> 0 \<or> addressToBytesMap st = [] \<longrightarrow>
            percentile st (Finite s m e) = Inr 0) \<and>
         (1 \<le> dbl_value s m e \<and> addressToBytesMap st \<noteq> [] \<longrightarrow>
            percentile st (Finite s m e) = Inr (Max (snd ` set (addressToBytesMap st)))) \<and>
         (0 < dbl_value s m e \<and> dbl_value s m e \<le> 1 \<and> addressToBytesMap st \<noteq> [] \<longrightarrow>
            (\<exists>L. upperLimit (Finite s m e) (length (addressToBytesMap st)) = Some L \<and>
               L \<le> length (addressToBytesMap st) \<and>
               (1 \<le> L \<longrightarrow>
                  (\<exists>front k c rest. histogram st = front @ (k, c) # rest \<and>
                     sum_list (map snd front) < L \<and> L \<le> sum_list (map snd front) + c \<and>
                     percentile st (Finite s m e) = Inr k)))) \<and>
         (2 \<le> length (addressToBytesMap st) \<longrightarrow>
            (\<exists>x y. percentile st (Finite False 1 (- 1)) = Inr x \<and>
                   percentile st (Finite False 1 0) = Inr y \<and> x \<le> y))"
proof -
  have c1: "percentile st (Finite s m e) = Inr 0"
    if "dbl_value s m e \<le> 0 \<or> addressToBytesMap st = []"
    by (rule percentile_zero [OF that])
  have c2: "percentile st (Finite s m e) = Inr (Max (snd ` set (addressToBytesMap st)))"
    if "1 \<le> dbl_value s m e \<and> addressToBytesMap st \<noteq> []"
    using percentile_one [OF len] that by blast
  have c3: "\<exists>L. upperLimit (Finite s m e) (length (addressToBytesMap st)) = Some L \<and>
               L \<le> length (addressToBytesMap st) \<and>
               (1 \<le> L \<longrightarrow>
                  (\<exists>front k c rest. histogram st = front @ (k, c) # rest \<and>
                     sum_list (map snd front) < L \<and> L \<le> sum_list (map snd front) + c \<and>
                     percentile st (Finite s m e) = Inr k))"
    if "0 < dbl_value s m e \<and> dbl_value s m e \<le> 1 \<and> addressToBytesMap st \<noteq> []"
    using percentile_unit [OF len] that by blast
  have c4: "\<exists>x y. percentile st (Finite False 1 (- 1)) = Inr x \<and>
                   percentile st (Finite False 1 0) = Inr y \<and> x \<le> y"
    if T: "2 \<le> length (addressToBytesMap st)"
  proof -
    from T have ne: "addressToBytesMap st \<noteq> []" by auto
    from percentile_key [OF len T] obtain x where
      x: "x \<in> snd ` set (addressToBytesMap st)" "percentile st (Finite False 1 (- 1)) = Inr x"
      by auto
    from x(1) have "x \<le> Max (snd ` set (addressToBytesMap st))" by simp
    moreover have "1 \<le> dbl_value False 1 0" by (simp add: dbl_value_def)
    note percentile_one [OF len ne this]
    ultimately show ?thesis using x(2) by blast
  qed
  from c1 c2 c3 c4 show ?thesis by blast
qed

text \<open>
  The amended statement at the resource with allocations of 8, 16, 16 and 24 bytes, for
  \<open>p = 0\<close>, \<open>p = 1/2\<close> and \<open>p = 1\<close>.
\<close>

theorem percentile_first_entry_reaching_limit_witness:
  "length (addressToBytesMap stats4) < 2 ^ 32 \<and>
   addressToBytesMap stats4 \<noteq> [] \<and>
   2 \<le> length (addressToBytesMap stats4) \<and>
   dbl_value False 0 0 \<le> 0 \<and>
   percentile stats4 (Finite False 0 0) = Inr 0 \<and>
   1 \<le> dbl_value False 1 0 \<and>
   percentile stats4 (Finite False 1 0) = Inr 24 \<and>
   0 < dbl_value False 1 (- 1) \<and> dbl_value False 1 (- 1) \<le> 1 \<and>
   upperLimit (Finite False 1 (- 1)) (length (addressToBytesMap stats4)) = Some 2 \<and>
   (\<exists>front k c rest. histogram stats4 = front @ (k, c) # rest \<and>
      sum_list (map snd front) < 2 \<and> 2 \<le> sum_list (map snd front) + c \<and>
      percentile stats4 (Finite False 1 (- 1)) = Inr k) \<and>
   (\<exists>x y. percentile stats4 (Finite False 1 (- 1)) = Inr x \<and>
          percentile stats4 (Finite False 1 0) = Inr y \<and> x \<le> y)"
proof -
  note m = stats4_map
  have len: "length (addressToBytesMap stats4) < 2 ^ 32"
    and ne: "addressToBytesMap stats4 \<noteq> []"
    and two: "2 \<le> length (addressToBytesMap stats4)"
    and four: "length (addressToBytesMap stats4) = 4"
    and mx: "Max (snd ` set (addressToBytesMap stats4)) = 24"
    by (simp_all add: m)
  have v: "dbl_value False 0 0 \<le> 0" "1 \<le> dbl_value False 1 0"
    "0 < dbl_value False 1 (- 1)" "dbl_value False 1 (- 1) \<le> 1"
    by (simp_all add: dbl_value_def)
  have u: "upperLimit (Finite False 1 (- 1)) (length (addressToBytesMap stats4)) = Some 2"
    unfolding four by (rule upperLimit_half_of_four)
  note t0 = percentile_first_entry_reaching_limit [OF len, of False 0 0]
  note t1 = percentile_first_entry_reaching_limit [OF len, of False 1 0]
  note th = percentile_first_entry_reaching_limit [OF len, of False 1 "- 1"]
  have "percentile stats4 (Finite False 0 0) = Inr 0"
    using t0 v(1) by blast
  moreover have "percentile stats4 (Finite False 1 0) = Inr 24"
    using t1 v(2) ne mx by simp
  moreover have "\<exists>front k c rest. histogram stats4 = front @ (k, c) # rest \<and>
      sum_list (map snd front) < 2 \<and> 2 \<le> sum_list (map snd front) + c \<and>
      percentile stats4 (Finite False 1 (- 1)) = Inr k"
  proof -
    from th v(3,4) ne obtain L where
      L: "upperLimit (Finite False 1 (- 1)) (length (addressToBytesMap stats4)) = Some L"
      and r: "1 \<le> L \<longrightarrow>
        (\<exists>front k c rest. histogram stats4 = front @ (k, c) # rest \<and>
           sum_list (map snd front) < L \<and> L \<le> sum_list (map snd front) + c \<and>
           percentile stats4 (Finite False 1 (- 1)) = Inr k)"
      by blast
    from L u have "L = 2" by simp
    with r show ?thesis by simp
  qed
  moreover have "\<exists>x y. percentile stats4 (Finite False 1 (- 1)) = Inr x \<and>
      percentile stats4 (Finite False 1 0) = Inr y \<and> x \<le> y"
    using th two by blast
  ultimately show ?thesis
    using len ne two v u by blast
qed

section \<open>Arithmetic of the machine operations\<close>

lemma u32_id: "x < 2 ^ 32 \<Longrightarrow> u32 x = x"
  by (simp add: u32_def)

lemma u64_id: "x < 2 ^ 64 \<Longrightarrow> u64 x = x"
  by (simp add: u64_def)

lemma wrap_sub_exact:
  fixes a b m :: nat
  assumes "b \<le> a" and "a < m"
  shows "(a mod m + (m - b mod m)) mod m = a - b"
proof -
  from assms have bm: "b < m" by linarith
  have e: "a + (m - b) = (a - b) + m"
    using assms bm by linarith
  have "(a mod m + (m - b mod m)) mod m = (a + (m - b)) mod m"
    using assms bm by (simp only: mod_less)
  also have "\<dots> = ((a - b) + m) mod m"
    by (simp only: e)
  also have "\<dots> = (a - b) mod m"
    by (simp only: mod_add_self2)
  also have "\<dots> = a - b"
    using assms by (intro mod_less) linarith
  finally show ?thesis .
qed

lemma sub64_exact: "b \<le> a \<Longrightarrow> a < 2 ^ 64 \<Longrightarrow> sub64 a b = a - b"
  unfolding sub64_def u64_def by (rule wrap_sub_exact)

lemma sub32_exact: "b \<le> a \<Longrightarrow> a < 2 ^ 32 \<Longrightarrow> sub32 a b = a - b"
  unfolding sub32_def u32_def by (rule wrap_sub_exact)

lemma and_pow2_minus_one: "x AND (2 ^ k - 1) = x mod 2 ^ k" for x :: nat
  by (metis mask_eq_exp_minus_1 take_bit_eq_mask take_bit_eq_mod)

lemma valid_requestD:
  assumes "valid_request b a"
  obtains k where "a = 2 ^ k" "k < 32" "b + a \<le> 2 ^ 32" "0 < a" "a < 2 ^ 32"
proof -
  from assms obtain k where k: "k < 32" "a = 2 ^ k" and le: "b + a \<le> 2 ^ 32"
    by (auto simp: valid_request_def)
  have "(2::nat) ^ k < 2 ^ 32"
    using k(1) by (intro power_strict_increasing) simp_all
  with k le show ?thesis by (intro that [of k]) simp_all
qed

lemma mask_of_alignment:
  assumes "valid_request b a"
  shows "x AND sub64 a 1 = x mod a"
proof -
  from assms obtain k where k: "a = 2 ^ k" "0 < a" "a < 2 ^ 32"
    by (rule valid_requestD)
  have "sub64 a 1 = a - 1"
    using k by (intro sub64_exact) simp_all
  then show ?thesis
    unfolding k(1) by (simp only: and_pow2_minus_one)
qed

lemma alignmentOffset_eq:
  assumes "valid_request b a"
  shows "alignmentOffset s b a = sub64 (data s) b mod a"
proof -
  from assms obtain k where k: "a = 2 ^ k" "0 < a" "a < 2 ^ 32"
    by (rule valid_requestD)
  have "sub64 (data s) b mod a < 2 ^ 32"
    using mod_less_divisor [OF k(2), of "sub64 (data s) b"] k(3) by linarith
  then show ?thesis
    unfolding alignmentOffset_def mask_of_alignment [OF assms] by (rule u32_id)
qed

lemma numBytesNeeded_eq:
  assumes "valid_request b a"
  shows "numBytesNeeded s b a = b + sub64 (data s) b mod a"
proof -
  from assms obtain k where k: "a = 2 ^ k" "0 < a" "a < 2 ^ 32" "b + a \<le> 2 ^ 32"
    by (rule valid_requestD)
  have lt: "sub64 (data s) b mod a < a"
    using k(2) by simp
  with k(4) have "b < 2 ^ 32" "b + sub64 (data s) b mod a < 2 ^ 32" by linarith+
  then show ?thesis
    by (simp add: numBytesNeeded_def alignmentOffset_eq [OF assms] u32_id)
qed

lemma arena_top:
  assumes "wf_geometry n sz base" and "a < n"
  shows "u64 (base + u32 (sz * u32 (a + 1))) = base + sz * a + sz"
proof -
  from assms have g: "0 < sz" "n * sz < 2 ^ 32" "base + n * sz < 2 ^ 64"
    by (simp_all add: wf_geometry_def)
  have le: "sz * (a + 1) \<le> n * sz"
    using assms(2) by (simp add: mult.commute [of n sz] del: mult_Suc_right)
  have "a + 1 \<le> n * sz"
  proof -
    have "a + 1 \<le> n" using assms(2) by simp
    also have "n \<le> n * sz" using g(1) by simp
    finally show ?thesis .
  qed
  with g(2) have a32: "a + 1 < 2 ^ 32" by linarith
  from le g(2) have p32: "sz * (a + 1) < 2 ^ 32" by linarith
  from le g(3) have p64: "base + sz * (a + 1) < 2 ^ 64" by linarith
  show ?thesis
    using a32 p32 p64 by (simp add: u32_id u64_id)
qed

lemma arena_base:
  assumes "wf_geometry n sz base" and "a < n"
  shows "u64 (base + u32 (a * sz)) = base + sz * a"
proof -
  from assms have g: "0 < sz" "n * sz < 2 ^ 32" "base + n * sz < 2 ^ 64"
    by (simp_all add: wf_geometry_def)
  have le: "a * sz \<le> n * sz"
    using assms(2) by simp
  from le g(2) have p32: "a * sz < 2 ^ 32" by linarith
  from le g(3) have p64: "base + a * sz < 2 ^ 64" by linarith
  show ?thesis
    using p32 p64 by (simp add: u32_id u64_id mult.commute)
qed

lemma arena_slot_in_storage:
  assumes "wf_geometry n sz base" and "a < n" and "r < sz"
  shows "in_storage n sz base (base + sz * a + r)"
    and "arenaIdOf base sz (base + sz * a + r) = a"
proof -
  have "sz * a + sz \<le> n * sz"
  proof -
    have "sz * a + sz = (a + 1) * sz" by (simp add: mult.commute)
    also have "\<dots> \<le> n * sz" using assms(2) by (intro mult_le_mono1) simp
    finally show ?thesis .
  qed
  with assms(3) have lt: "sz * a + r < n * sz" by linarith
  then show st: "in_storage n sz base (base + sz * a + r)"
    by (simp add: in_storage_def)
  have "u32 (sub64 (base + sz * a + r) base) = sz * a + r"
    using offset_in_storage [OF assms(1) st] by simp
  then show "arenaIdOf base sz (base + sz * a + r) = a"
    using assms(3) by (simp add: arenaIdOf_def)
qed

lemma arenaIdOf_in_storage:
  assumes "wf_geometry n sz base" and "in_storage n sz base p"
  shows "arenaIdOf base sz p < n"
proof -
  from assms have "p - base < n * sz" "0 < sz"
    by (auto simp: in_storage_def wf_geometry_def)
  then have "(p - base) div sz < n"
    by (simp add: less_mult_imp_div_less)
  then show ?thesis
    by (simp add: arenaIdOf_def offset_in_storage [OF assms])
qed

section \<open>The invariant of the unsynchronized pool\<close>

lemma pool_invD:
  assumes "pool_inv s L"
  shows "wf_geometry (numArenas s) (arenaSize s) (arenaData s)"
    and "length (freeList s) = numArenas s"
    and "length (numAllocationsInArena s) = numArenas s"
    and "activeArenaId s < numArenas s"
    and "freeListHead s < numArenas s"
    and "bytesLeft s \<le> arenaSize s"
    and "data s = arenaData s + arenaSize s * activeArenaId s + bytesLeft s"
    and "set (take (freeListHead s) (freeList s)) \<subseteq> {0 ..< numArenas s} - {activeArenaId s}"
    and "distinct (take (freeListHead s) (freeList s))"
    and "\<forall>a \<in> set (take (freeListHead s) (freeList s)). numAllocationsInArena s ! a = 0"
    and "\<forall>i < numArenas s.
        numAllocationsInArena s ! i = arena_count (arenaData s) (arenaSize s) L i"
    and "\<forall>p \<in> set L. in_storage (numArenas s) (arenaSize s) (arenaData s) p"
    and "numAllocationsInArena s ! activeArenaId s + bytesLeft s \<le> arenaSize s"
    and "\<forall>i < numArenas s. numAllocationsInArena s ! i \<le> arenaSize s"
  using assms unfolding pool_inv_def by blast+

lemma geometry_bounds:
  assumes "wf_geometry n sz base"
  shows "0 < n" "0 < sz" "n * sz < 2 ^ 32" "0 < base" "base + n * sz < 2 ^ 64"
    "sz < 2 ^ 32" "n < 2 ^ 32"
proof -
  from assms show g: "0 < n" "0 < sz" "n * sz < 2 ^ 32" "0 < base" "base + n * sz < 2 ^ 64"
    by (simp_all add: wf_geometry_def)
  have "sz \<le> n * sz" using g(1) by simp
  with g(3) show "sz < 2 ^ 32" by linarith
  have "n \<le> n * sz" using g(2) by simp
  with g(3) show "n < 2 ^ 32" by linarith
qed

subsection \<open>Reserving the next arena\<close>

lemma reserveNextArena_none: "freeListHead s = 0 \<Longrightarrow> reserveNextArena s = (False, s)"
  by (simp add: reserveNextArena_def)

lemma reserveNextArena_some:
  "freeListHead s \<noteq> 0 \<Longrightarrow>
   reserveNextArena s =
     (True, s\<lparr>freeListHead := freeListHead s - 1,
              bytesLeft := arenaSize s,
              activeArenaId := freeList s ! (freeListHead s - 1),
              data := u64 (arenaData s +
                u32 (arenaSize s * u32 (freeList s ! (freeListHead s - 1) + 1)))\<rparr>)"
  by (simp add: reserveNextArena_def Let_def)

lemma reserve_inv:
  assumes inv: "pool_inv s L" and ok: "fst (reserveNextArena s)"
  shows "pool_inv (snd (reserveNextArena s)) L"
proof -
  note d = pool_invD [OF inv]
  have h0: "freeListHead s \<noteq> 0"
  proof
    assume "freeListHead s = 0"
    with ok show False by (simp add: reserveNextArena_none)
  qed
  define h where "h = freeListHead s - 1"
  define a where "a = freeList s ! h"
  from h0 have hd: "freeListHead s = Suc h" by (simp add: h_def)
  have hlen: "h < length (freeList s)"
    using d(2,5) hd by simp
  have tk: "take (freeListHead s) (freeList s) = take h (freeList s) @ [a]"
    unfolding hd a_def by (rule take_Suc_conv_app_nth [OF hlen])
  have a_in: "a \<in> set (take (freeListHead s) (freeList s))"
    by (simp add: tk)
  with d(8) have aN: "a < numArenas s" and a_act: "a \<noteq> activeArenaId s"
    by auto
  from a_in d(10) have a0: "numAllocationsInArena s ! a = 0" by blast
  from d(9) have dist: "distinct (take h (freeList s))" and a_notin: "a \<notin> set (take h (freeList s))"
    by (simp_all add: tk)
  have sub: "set (take h (freeList s)) \<subseteq> {0 ..< numArenas s} - {a}"
    using d(8) a_notin by (auto simp: tk)
  have zero: "\<forall>x \<in> set (take h (freeList s)). numAllocationsInArena s ! x = 0"
    using d(10) by (simp add: tk)
  have top: "u64 (arenaData s + u32 (arenaSize s * u32 (a + 1))) =
      arenaData s + arenaSize s * a + arenaSize s"
    by (rule arena_top [OF d(1) aN])
  have s': "snd (reserveNextArena s) =
      s\<lparr>freeListHead := h, bytesLeft := arenaSize s, activeArenaId := a,
        data := arenaData s + arenaSize s * a + arenaSize s\<rparr>"
    unfolding reserveNextArena_some [OF h0] a_def h_def
    using top [unfolded a_def h_def] by simp
  have hN: "h < numArenas s" using d(5) hd by simp
  show ?thesis
    unfolding s' pool_inv_def
    using d(1,2,3,11,12,14) aN hN sub dist zero a0 by simp
qed


lemma reserve_geometry:
  "numArenas (snd (reserveNextArena s)) = numArenas s \<and>
   arenaSize (snd (reserveNextArena s)) = arenaSize s \<and>
   arenaData (snd (reserveNextArena s)) = arenaData s"
  by (simp add: reserveNextArena_def Let_def)

subsection \<open>The bump step\<close>

lemma arena_count_Cons:
  "arena_count base sz (p # L) i = (if arenaIdOf base sz p = i then 1 else 0) + arena_count base sz L i"
  by (simp add: arena_count_def)

lemma round_down_aligned: "(x - x mod a) mod a = 0" for x a :: nat
  by (simp add: minus_mod_eq_mult_div)

lemma bump_inv:
  assumes inv: "pool_inv s L" and req: "valid_request b a" and pos: "0 < b"
    and fit: "numBytesNeeded s b a \<le> bytesLeft s"
    and p: "p = sub64 (sub64 (data s) b) (alignmentOffset s b a)"
    and s': "s' = s\<lparr>data := p,
              bytesLeft := bytesLeft s - numBytesNeeded s b a,
              numAllocationsInArena :=
                (numAllocationsInArena s)[activeArenaId s :=
                   u32 (numAllocationsInArena s ! activeArenaId s + 1)]\<rparr>"
  shows "pool_inv s' (p # L)" and "p mod a = 0"
    and "in_storage (numArenas s) (arenaSize s) (arenaData s) p" and "p \<noteq> 0"
    and "arenaIdOf (arenaData s) (arenaSize s) p = activeArenaId s" and "p < data s"
proof -
  note d = pool_invD [OF inv]
  note g = geometry_bounds [OF d(1)]
  define off where "off = sub64 (data s) b mod a"
  define r where "r = bytesLeft s - (b + off)"
  define c where "c = numAllocationsInArena s ! activeArenaId s"
  have needed: "numBytesNeeded s b a = b + off"
    by (simp add: numBytesNeeded_eq [OF req] off_def)
  have offset: "alignmentOffset s b a = off"
    by (simp add: alignmentOffset_eq [OF req] off_def)
  from fit needed have fit': "b + off \<le> bytesLeft s" by simp
  have top: "arenaSize s * activeArenaId s + arenaSize s \<le> numArenas s * arenaSize s"
  proof -
    have "arenaSize s * activeArenaId s + arenaSize s = (activeArenaId s + 1) * arenaSize s"
      by (simp add: mult.commute)
    also have "\<dots> \<le> numArenas s * arenaSize s"
      using d(4) by (intro mult_le_mono1) simp
    finally show ?thesis .
  qed
  have data64: "data s < 2 ^ 64"
    using d(6,7) top g(5) by linarith
  have b_le: "b \<le> data s"
    using fit' d(7) by linarith
  have sub1: "sub64 (data s) b = data s - b"
    by (rule sub64_exact [OF b_le data64])
  have off_eq: "off = (data s - b) mod a"
    by (simp add: off_def sub1)
  have off_le: "off \<le> data s - b"
    unfolding off_eq by (rule mod_less_eq_dividend)
  have "data s - b < 2 ^ 64" using data64 by linarith
  then have p1: "p = data s - b - off"
    unfolding p offset sub1 by (intro sub64_exact off_le)
  have p2: "p = arenaData s + arenaSize s * activeArenaId s + r"
    unfolding p1 r_def using d(7) fit' by linarith
  have r_lt: "r < arenaSize s"
    unfolding r_def using pos d(6) fit' by linarith
  show st: "in_storage (numArenas s) (arenaSize s) (arenaData s) p"
    unfolding p2 by (rule arena_slot_in_storage(1) [OF d(1) d(4) r_lt])
  show id: "arenaIdOf (arenaData s) (arenaSize s) p = activeArenaId s"
    unfolding p2 by (rule arena_slot_in_storage(2) [OF d(1) d(4) r_lt])
  show "p < data s"
    unfolding p1 using pos b_le by linarith
  show "p mod a = 0"
    unfolding p1 off_eq by (rule round_down_aligned)
  show "p \<noteq> 0"
    using st g(4) by (auto simp: in_storage_def)
  have c1: "c + 1 \<le> arenaSize s"
    using d(13) fit' pos unfolding c_def by linarith
  then have "c + 1 < 2 ^ 32" using g(6) by linarith
  then have inc: "u32 (c + 1) = c + 1" by (rule u32_id)
  have s'': "s' = s\<lparr>data := arenaData s + arenaSize s * activeArenaId s + r,
              bytesLeft := r,
              numAllocationsInArena := (numAllocationsInArena s)[activeArenaId s := c + 1]\<rparr>"
    unfolding s' needed r_def [symmetric] p2 c_def [symmetric] inc ..
  have act_len: "activeArenaId s < length (numAllocationsInArena s)"
    using d(3,4) by simp
  have zero: "\<forall>x \<in> set (take (freeListHead s) (freeList s)).
      (numAllocationsInArena s)[activeArenaId s := c + 1] ! x = 0"
  proof
    fix x assume x: "x \<in> set (take (freeListHead s) (freeList s))"
    with d(8) have "activeArenaId s \<noteq> x" by auto
    then have "(numAllocationsInArena s)[activeArenaId s := c + 1] ! x = numAllocationsInArena s ! x"
      by (rule nth_list_update_neq)
    with d(10) x show "(numAllocationsInArena s)[activeArenaId s := c + 1] ! x = 0" by simp
  qed
  have cnt: "\<forall>i < numArenas s. (numAllocationsInArena s)[activeArenaId s := c + 1] ! i =
      arena_count (arenaData s) (arenaSize s) (p # L) i"
    using d(11) d(4) act_len by (auto simp: arena_count_Cons id c_def nth_list_update)
  have bound: "\<forall>i < numArenas s. (numAllocationsInArena s)[activeArenaId s := c + 1] ! i \<le> arenaSize s"
    using d(14) c1 act_len by (auto simp: nth_list_update)
  have act: "(numAllocationsInArena s)[activeArenaId s := c + 1] ! activeArenaId s + r \<le> arenaSize s"
    using act_len d(13) fit' pos unfolding r_def c_def by simp
  have r_le: "r \<le> arenaSize s" using r_lt by simp
  show "pool_inv s' (p # L)"
    unfolding s'' pool_inv_def
    using d(1,2,3,4,5,8,9,12) zero cnt bound act r_le st by simp
qed

lemma details_geometry:
  "numArenas (snd (do_allocate_details s b a)) = numArenas s \<and>
   arenaSize (snd (do_allocate_details s b a)) = arenaSize s \<and>
   arenaData (snd (do_allocate_details s b a)) = arenaData s"
proof (induction s b a rule: do_allocate_details.induct)
  case (1 s bytes alignment)
  show ?case
  proof (cases "bytesLeft s < numBytesNeeded s bytes alignment")
    case False
    then show ?thesis
      by (subst (1 2 3) do_allocate_details.simps) (simp add: Let_def)
  next
    case True
    show ?thesis
    proof (cases "bytes \<le> arenaSize s \<and> fst (reserveNextArena s)")
      case False
      with True show ?thesis
        by (subst (1 2 3) do_allocate_details.simps) auto
    next
      case c: True
      have "do_allocate_details s bytes alignment =
          do_allocate_details (snd (reserveNextArena s)) bytes alignment"
        using True c by (subst do_allocate_details.simps) simp
      then show ?thesis
        using "1.IH" [OF True c] by (simp add: reserve_geometry)
    qed
  qed
qed

lemma details_inv:
  assumes "pool_inv s L" and "valid_request b a" and "0 < b"
  shows "(fst (do_allocate_details s b a) = 0 \<and> pool_inv (snd (do_allocate_details s b a)) L) \<or>
         (fst (do_allocate_details s b a) \<noteq> 0 \<and>
          pool_inv (snd (do_allocate_details s b a)) (fst (do_allocate_details s b a) # L) \<and>
          fst (do_allocate_details s b a) mod a = 0 \<and>
          in_storage (numArenas s) (arenaSize s) (arenaData s) (fst (do_allocate_details s b a)))"
  using assms
proof (induction s b a rule: do_allocate_details.induct)
  case (1 s bytes alignment)
  show ?case
  proof (cases "bytesLeft s < numBytesNeeded s bytes alignment")
    case False
    define p where "p = sub64 (sub64 (data s) bytes) (alignmentOffset s bytes alignment)"
    define s' where "s' = s\<lparr>data := p,
              bytesLeft := bytesLeft s - numBytesNeeded s bytes alignment,
              numAllocationsInArena :=
                (numAllocationsInArena s)[activeArenaId s :=
                   u32 (numAllocationsInArena s ! activeArenaId s + 1)]\<rparr>"
    have eq: "do_allocate_details s bytes alignment = (p, s')"
      using False by (subst do_allocate_details.simps) (simp add: Let_def p_def s'_def)
    from False have fit: "numBytesNeeded s bytes alignment \<le> bytesLeft s" by simp
    from bump_inv [OF "1.prems" fit p_def s'_def] show ?thesis
      unfolding eq by simp
  next
    case True
    show ?thesis
    proof (cases "bytes \<le> arenaSize s \<and> fst (reserveNextArena s)")
      case False
      with True have "do_allocate_details s bytes alignment = (0, s)"
        by (subst do_allocate_details.simps) auto
      with "1.prems"(1) show ?thesis by simp
    next
      case c: True
      have eq: "do_allocate_details s bytes alignment =
          do_allocate_details (snd (reserveNextArena s)) bytes alignment"
        using True c by (subst do_allocate_details.simps) simp
      have "pool_inv (snd (reserveNextArena s)) L"
        using "1.prems"(1) c by (intro reserve_inv) simp_all
      from "1.IH" [OF True c this "1.prems"(2,3)] show ?thesis
        unfolding eq by (simp add: reserve_geometry)
    qed
  qed
qed

subsection \<open>Allocation\<close>

lemma allocate_inv:
  assumes inv: "pool_inv s L" and req: "valid_request b a"
  shows "case do_allocate True s b a of
           (Inl e, s') \<Rightarrow> pool_inv s' L
         | (Inr p, s') \<Rightarrow>
             if p = 0 then pool_inv s' L
             else pool_inv s' (p # L) \<and> 0 < b \<and> p mod a = 0 \<and>
                  in_storage (numArenas s) (arenaSize s) (arenaData s) p"
proof (cases "b = 0")
  case True
  with inv show ?thesis by (simp add: do_allocate_def)
next
  case False
  then have pos: "0 < b" by simp
  obtain p s' where eq: "do_allocate_details s b a = (p, s')"
    by (cases "do_allocate_details s b a")
  from details_inv [OF inv req pos] show ?thesis
    using False pos by (auto simp: do_allocate_def eq)
qed

lemma allocate_geometry:
  "numArenas (snd (do_allocate ee s b a)) = numArenas s \<and>
   arenaSize (snd (do_allocate ee s b a)) = arenaSize s \<and>
   arenaData (snd (do_allocate ee s b a)) = arenaData s"
  using details_geometry [of s b a]
  by (cases "do_allocate_details s b a") (auto simp: do_allocate_def)

subsection \<open>Deallocation\<close>

lemma filter_member_pos: "p \<in> set L \<Longrightarrow> P p \<Longrightarrow> 0 < length (filter P L)"
  by (induction L) auto

lemma filter_remove1_length:
  "p \<in> set L \<Longrightarrow>
   length (filter P (remove1 p L)) = length (filter P L) - (if P p then 1 else 0)"
proof (induction L)
  case Nil
  then show ?case by simp
next
  case (Cons x L)
  show ?case
  proof (cases "p = x")
    case True
    then show ?thesis by simp
  next
    case False
    with Cons.prems have in_L: "p \<in> set L" by simp
    from Cons.IH [OF in_L] filter_member_pos [OF in_L, of P] False show ?thesis
      by (cases "P p"; cases "P x") simp_all
  qed
qed

lemma arena_count_remove1:
  "p \<in> set L \<Longrightarrow>
   arena_count base sz (remove1 p L) j =
     arena_count base sz L j - (if arenaIdOf base sz p = j then 1 else 0)"
  unfolding arena_count_def by (rule filter_remove1_length)

lemma arena_count_pos:
  "p \<in> set L \<Longrightarrow> 0 < arena_count base sz L (arenaIdOf base sz p)"
  unfolding arena_count_def by (induction L) auto

lemma deallocate_geometry:
  "numArenas (snd (do_deallocate ee s p b a)) = numArenas s \<and>
   arenaSize (snd (do_deallocate ee s p b a)) = arenaSize s \<and>
   arenaData (snd (do_deallocate ee s p b a)) = arenaData s"
  by (auto simp: do_deallocate_def Let_def resetActiveArena_def releaseArena_def
      split: sum.splits)

lemma free_list_room:
  assumes "distinct xs" and "set xs \<subseteq> {0 ..< n} - {a}" and "a < n"
  shows "length xs < n"
proof -
  have "length xs = card (set xs)"
    using assms(1) by (simp add: distinct_card)
  also have "\<dots> \<le> card ({0 ..< n} - {a})"
    using assms(2) by (intro card_mono) simp_all
  also have "\<dots> = n - 1"
    using assms(3) by simp
  finally show ?thesis using assms(3) by linarith
qed

lemma deallocate_inv:
  assumes inv: "pool_inv s L" and live: "p \<in> set L"
  shows "fst (do_deallocate True s p b a) = Inr () \<and>
         pool_inv (snd (do_deallocate True s p b a)) (remove1 p L)"
proof -
  note d = pool_invD [OF inv]
  note g = geometry_bounds [OF d(1)]
  define i where "i = arenaIdOf (arenaData s) (arenaSize s) p"
  define c where "c = numAllocationsInArena s ! i"
  define cs where "cs = (numAllocationsInArena s)[i := c - 1]"
  from d(12) live have st: "in_storage (numArenas s) (arenaSize s) (arenaData s) p" by blast
  have iN: "i < numArenas s"
    unfolding i_def by (rule arenaIdOf_in_storage [OF d(1) st])
  have ilen: "i < length (numAllocationsInArena s)" using iN d(3) by simp
  have c_eq: "c = arena_count (arenaData s) (arenaSize s) L i"
    using d(11) iN by (simp add: c_def)
  have c_pos: "0 < c"
    unfolding c_eq i_def by (rule arena_count_pos [OF live])
  have "c \<le> arenaSize s" using d(14) iN by (simp add: c_def)
  then have "c < 2 ^ 32" using g(6) by linarith
  then have "sub32 c 1 = c - 1"
    using c_pos by (intro sub32_exact) simp_all
  then have dec: "sub32 c (Suc 0) = c - Suc 0" by simp
  have live': "\<forall>q \<in> set (remove1 p L). in_storage (numArenas s) (arenaSize s) (arenaData s) q"
    using d(12) by (meson notin_set_remove1)
  have cnt: "\<forall>j < numArenas s. cs ! j = arena_count (arenaData s) (arenaSize s) (remove1 p L) j"
    using d(11) ilen
    by (auto simp: cs_def nth_list_update arena_count_remove1 [OF live] i_def [symmetric] c_def)
  have cs_len: "length cs = numArenas s" by (simp add: cs_def d(3))
  have bound: "\<forall>j < numArenas s. cs ! j \<le> arenaSize s"
    using d(14) ilen by (auto simp: cs_def nth_list_update c_def intro: le_trans [OF diff_le_self])
  have not_free: "i \<notin> set (take (freeListHead s) (freeList s))"
    using d(10) c_pos by (auto simp: c_def)
  have zero: "\<forall>x \<in> set (take (freeListHead s) (freeList s)). cs ! x = 0"
  proof
    fix x assume x: "x \<in> set (take (freeListHead s) (freeList s))"
    with not_free have "i \<noteq> x" by auto
    then have "cs ! x = numAllocationsInArena s ! x"
      unfolding cs_def by (rule nth_list_update_neq)
    with d(10) x show "cs ! x = 0" by simp
  qed
  have act: "cs ! activeArenaId s + bytesLeft s \<le> arenaSize s"
    using d(13) ilen by (auto simp: cs_def nth_list_update c_def)
  have gen: "do_deallocate True s p b a =
      (let s1 = s\<lparr>numAllocationsInArena := cs\<rparr>
       in if c - 1 = 0 then
            (if i = activeArenaId s then (Inr (), resetActiveArena s1)
             else (case releaseArena s1 i of Inl e \<Rightarrow> (Inl e, s1) | Inr s2 \<Rightarrow> (Inr (), s2)))
          else (Inr (), s1))"
    using g(2) iN
    by (simp add: do_deallocate_def Let_def i_def [symmetric] c_def [symmetric] dec cs_def)
  show ?thesis
  proof (cases "c - 1 = 0")
    case False
    then have eq: "do_deallocate True s p b a = (Inr (), s\<lparr>numAllocationsInArena := cs\<rparr>)"
      by (simp add: gen)
    show ?thesis
      unfolding eq pool_inv_def
      using d(1,2,4,5,6,7,8,9) cs_len zero cnt live' act bound by simp
  next
    case one: True
    show ?thesis
    proof (cases "i = activeArenaId s")
      case True
      have top: "u64 (arenaData s + u32 (arenaSize s * u32 (activeArenaId s + 1))) =
          arenaData s + arenaSize s * activeArenaId s + arenaSize s"
        by (rule arena_top [OF d(1) d(4)])
      have cs0: "cs[activeArenaId s := 0] = cs"
        using one ilen True by (simp add: cs_def)
      have eq: "do_deallocate True s p b a =
          (Inr (), s\<lparr>bytesLeft := arenaSize s,
                     data := arenaData s + arenaSize s * activeArenaId s + arenaSize s,
                     numAllocationsInArena := cs\<rparr>)"
        using one True top cs0 by (simp add: gen resetActiveArena_def)
      have "cs ! activeArenaId s = 0"
        using one ilen True by (simp add: cs_def)
      then show ?thesis
        unfolding eq pool_inv_def
        using d(1,2,4,5,8,9) cs_len zero cnt live' bound by simp
    next
      case False
      let ?fl = "(freeList s)[freeListHead s := i]"
      have hlen: "freeListHead s < length (freeList s)" using d(2,5) by simp
      have csi: "cs[i := 0] = cs"
        using one ilen by (simp add: cs_def)
      have eq: "do_deallocate True s p b a =
          (Inr (), s\<lparr>freeList := ?fl, freeListHead := freeListHead s + 1,
                     numAllocationsInArena := cs\<rparr>)"
        using one False d(5) csi by (simp add: gen releaseArena_def)
      have tk: "take (Suc (freeListHead s)) ?fl = take (freeListHead s) (freeList s) @ [i]"
        using hlen by (simp add: take_Suc_conv_app_nth)
      have sub: "set (take (Suc (freeListHead s)) ?fl) \<subseteq> {0 ..< numArenas s} - {activeArenaId s}"
        using d(8) iN False by (auto simp: tk)
      have dist: "distinct (take (Suc (freeListHead s)) ?fl)"
        using d(9) not_free by (simp add: tk)
      have "length (take (Suc (freeListHead s)) ?fl) < numArenas s"
        by (rule free_list_room [OF dist sub d(4)])
      then have head: "Suc (freeListHead s) < numArenas s"
        using hlen by simp
      have "cs ! i = 0" using one ilen by (simp add: cs_def)
      with zero have zero': "\<forall>x \<in> set (take (Suc (freeListHead s)) ?fl). cs ! x = 0"
        by (simp add: tk)
      show ?thesis
        unfolding eq pool_inv_def
        using d(1,2,4,6,7) cs_len head sub dist zero' cnt live' act bound by simp
    qed
  qed
qed

subsection \<open>The constructed pool\<close>

lemma initializeArenas_eq:
  assumes "wf_geometry n sz base"
  shows "initializeArenas n sz base =
     \<lparr>numArenas = n, arenaSize = sz, arenaData = base,
      data = base + sz * 0 + sz, bytesLeft = sz, activeArenaId = 0,
      freeListHead = n - 1,
      freeList = map (\<lambda>i. n - 1 - i) [0 ..< n],
      numAllocationsInArena = replicate n 0\<rparr>"
proof -
  from assms have n: "0 < n" by (simp add: wf_geometry_def)
  then have last: "map (\<lambda>i. n - 1 - i) [0 ..< n] ! (n - 1) = 0" by simp
  have top: "u64 (base + u32 (sz * u32 (0 + 1))) = base + sz * 0 + sz"
    by (rule arena_top [OF assms n])
  show ?thesis
    using n last top by (simp add: initializeArenas_def reserveNextArena_def Let_def)
qed

lemma init_inv:
  assumes "wf_geometry n sz base"
  shows "pool_inv (initializeArenas n sz base) []"
proof -
  from assms have n: "0 < n" by (simp add: wf_geometry_def)
  define fl where "fl = map (\<lambda>i. n - 1 - i) [0 ..< n]"
  define h where "h = n - 1"
  have eq: "initializeArenas n sz base =
     \<lparr>numArenas = n, arenaSize = sz, arenaData = base,
      data = base + sz * 0 + sz, bytesLeft = sz, activeArenaId = 0,
      freeListHead = h, freeList = fl, numAllocationsInArena = replicate n 0\<rparr>"
    unfolding fl_def h_def by (rule initializeArenas_eq [OF assms])
  have tk: "take h fl = map (\<lambda>i. n - 1 - i) [0 ..< n - 1]"
    unfolding fl_def h_def by (simp add: take_map)
  have sub: "set (take h fl) \<subseteq> {0 ..< n} - {0}"
    unfolding tk by auto
  have "inj_on (\<lambda>i. n - 1 - i) (set [0 ..< n - 1])"
  proof (rule inj_onI)
    fix i j
    assume "i \<in> set [0 ..< n - 1]" and "j \<in> set [0 ..< n - 1]"
    then have "i < n - 1" "j < n - 1" by simp_all
    moreover assume "n - 1 - i = n - 1 - j"
    ultimately show "i = j" by linarith
  qed
  then have dist: "distinct (take h fl)"
    unfolding tk distinct_map using distinct_upt by blast
  have zero: "\<forall>a \<in> set (take h fl). replicate n (0::nat) ! a = 0"
    using sub by auto
  have len: "length fl = n" by (simp add: fl_def)
  have hn: "h < n" using n by (simp add: h_def)
  show ?thesis
    unfolding eq pool_inv_def
    using assms n sub dist zero len hn by (simp add: arena_count_def)
qed

subsection \<open>Counting\<close>

lemma sum_arena_count:
  assumes "\<forall>p \<in> set L. arenaIdOf base sz p < n"
  shows "sum_list (map (arena_count base sz L) [0 ..< n]) = length L"
proof -
  have "sum (arena_count base sz L) {0 ..< n} = length L"
    using assms
  proof (induction L)
    case Nil
    then show ?case by (simp add: arena_count_def)
  next
    case (Cons p L)
    then have lt: "arenaIdOf base sz p < n" and rest: "\<forall>q \<in> set L. arenaIdOf base sz q < n"
      by simp_all
    have "sum (arena_count base sz (p # L)) {0 ..< n} =
        (\<Sum>i \<in> {0 ..< n}. if arenaIdOf base sz p = i then 1 else 0) +
        sum (arena_count base sz L) {0 ..< n}"
      by (simp add: arena_count_Cons sum.distrib)
    also have "(\<Sum>i \<in> {0 ..< n}. if arenaIdOf base sz p = i then 1 else 0) = (1::nat)"
      using lt by (simp add: sum.delta')
    finally show ?case using Cons.IH [OF rest] by simp
  qed
  then show ?thesis
    by (simp add: interv_sum_list_conv_sum_set_nat)
qed

lemma numberOfAllocations_live:
  assumes inv: "pool_inv s L"
  shows "numberOfAllocations s = length L"
proof -
  note d = pool_invD [OF inv]
  note g = geometry_bounds [OF d(1)]
  have ids: "\<forall>p \<in> set L. arenaIdOf (arenaData s) (arenaSize s) p < numArenas s"
    using d(12) arenaIdOf_in_storage [OF d(1)] by blast
  have "map (allocationsInArena s) [0 ..< numArenas s] =
      map (arena_count (arenaData s) (arenaSize s) L) [0 ..< numArenas s]"
    using d(11) by (simp add: allocationsInArena_def)
  then have total: "sum_list (map (allocationsInArena s) [0 ..< numArenas s]) = length L"
    using sum_arena_count [OF ids] by (simp only:)
  have "sum_list (map (allocationsInArena s) [0 ..< numArenas s]) \<le>
      sum_list (map (\<lambda>i. arenaSize s) [0 ..< numArenas s])"
    using d(14) by (intro sum_list_mono) (simp add: allocationsInArena_def)
  also have "\<dots> = numArenas s * arenaSize s"
    by (simp add: sum_list_triv)
  finally have "length L < 2 ^ 64"
    using total g(3) by simp
  then show ?thesis
    by (simp add: numberOfAllocations_def total u64_id)
qed

subsection \<open>Sequences of calls\<close>

lemma init_geometry:
  "numArenas (initializeArenas n sz base) = n \<and>
   arenaSize (initializeArenas n sz base) = sz \<and>
   arenaData (initializeArenas n sz base) = base"
  by (simp add: initializeArenas_def reserveNextArena_def Let_def)

lemma start_inv: "wf_geometry n sz base \<Longrightarrow> run_inv n sz base (start n sz base)"
  by (simp add: run_inv_def start_def init_inv init_geometry)

lemma step_inv:
  assumes "run_inv n sz base r" and "step r x = Some r'"
  shows "run_inv n sz base r'"
proof (cases x)
  case (Allocate b a)
  from assms(1) have inv: "pool_inv (the_pool r) (live r)" by (simp add: run_inv_def)
  from assms(2) Allocate have req: "valid_request b a"
    by (auto split: if_splits)
  obtain res s' where eq: "do_allocate True (the_pool r) b a = (res, s')"
    by (cases "do_allocate True (the_pool r) b a")
  from allocate_geometry [of True "the_pool r" b a] assms(1)
  have geo: "numArenas s' = n" "arenaSize s' = sz" "arenaData s' = base"
    by (simp_all add: eq run_inv_def)
  from allocate_inv [OF inv req] assms geo show ?thesis
    by (auto simp: Allocate req eq run_inv_def split: sum.splits if_splits)
next
  case (Deallocate p b a)
  from assms(1) have inv: "pool_inv (the_pool r) (live r)" by (simp add: run_inv_def)
  from assms(2) Deallocate have live: "p \<in> set (live r)"
    by (auto split: if_splits)
  have "0 < length (live r)" using live by (cases "live r") auto
  moreover have "length (remove1 p (live r)) = length (live r) - 1"
    using live by (simp add: length_remove1)
  ultimately have len: "length (remove1 p (live r)) + (numDeallocates r + 1) =
      length (live r) + numDeallocates r" by simp
  from deallocate_inv [OF inv live, of b a] deallocate_geometry [of True "the_pool r" p b a]
    assms len show ?thesis
    by (auto simp: Deallocate live run_inv_def)
qed

lemma run_inv_preserved:
  "run r xs = Some r' \<Longrightarrow> run_inv n sz base r \<Longrightarrow> run_inv n sz base r'"
proof (induction xs arbitrary: r)
  case Nil
  then show ?case by simp
next
  case (Cons x xs)
  from Cons.prems(1) obtain r1 where s: "step r x = Some r1" and rest: "run r1 xs = Some r'"
    by (auto split: option.splits)
  from Cons.IH [OF rest step_inv [OF Cons.prems(2) s]] show ?case .
qed

section \<open>The invariant of the synchronized pool\<close>

lemma sync_invD:
  assumes "sync_inv s L"
  shows "wf_geometry (s_numArenas s) (s_arenaSize s) (s_arenaData s)"
    and "length (s_freeList s) = s_numArenas s"
    and "length (s_numAllocationsInArena s) = s_numArenas s"
    and "length (s_numDeallocationsInArena s) = s_numArenas s"
    and "s_activeArenaId s < s_numArenas s"
    and "s_freeListHead s < s_numArenas s"
    and "s_bytesReserved s \<le> s_arenaSize s"
    and "s_data s = s_arenaData s + s_arenaSize s * s_activeArenaId s + s_bytesReserved s"
    and "set (take (s_freeListHead s) (s_freeList s)) \<subseteq> {0 ..< s_numArenas s} - {s_activeArenaId s}"
    and "distinct (take (s_freeListHead s) (s_freeList s))"
    and "\<forall>a \<in> set (take (s_freeListHead s) (s_freeList s)).
        s_numAllocationsInArena s ! a = 0 \<and> s_numDeallocationsInArena s ! a = 0"
    and "\<forall>i < s_numArenas s.
        s_numAllocationsInArena s ! i =
          s_numDeallocationsInArena s ! i + arena_count (s_arenaData s) (s_arenaSize s) L i"
    and "\<forall>p \<in> set L. in_storage (s_numArenas s) (s_arenaSize s) (s_arenaData s) p"
    and "s_numAllocationsInArena s ! s_activeArenaId s * binSize \<le> s_bytesReserved s"
    and "s_bytesReserved s mod binSize = 0"
    and "\<forall>i < s_numArenas s. s_numAllocationsInArena s ! i * binSize \<le> s_arenaSize s"
  using assms unfolding sync_inv_def by blast+

lemma sync_reserveNextArena_none:
  "s_freeListHead s = 0 \<Longrightarrow> sync_reserveNextArena s = (False, s)"
  by (simp add: sync_reserveNextArena_def)

lemma sync_reserveNextArena_some:
  "s_freeListHead s \<noteq> 0 \<Longrightarrow>
   sync_reserveNextArena s =
     (True, s\<lparr>s_freeListHead := s_freeListHead s - 1,
              s_activeArenaId := s_freeList s ! (s_freeListHead s - 1),
              s_data := u64 (s_arenaData s +
                u32 (s_freeList s ! (s_freeListHead s - 1) * s_arenaSize s)),
              s_bytesReserved := 0\<rparr>)"
  by (simp add: sync_reserveNextArena_def Let_def)

lemma sync_reserve_geometry:
  "s_numArenas (snd (sync_reserveNextArena s)) = s_numArenas s \<and>
   s_arenaSize (snd (sync_reserveNextArena s)) = s_arenaSize s \<and>
   s_arenaData (snd (sync_reserveNextArena s)) = s_arenaData s"
  by (simp add: sync_reserveNextArena_def Let_def)

lemma sync_reserve_inv:
  assumes inv: "sync_inv s L" and ok: "fst (sync_reserveNextArena s)"
  shows "sync_inv (snd (sync_reserveNextArena s)) L"
    and "s_bytesReserved (snd (sync_reserveNextArena s)) = 0"
proof -
  note d = sync_invD [OF inv]
  have h0: "s_freeListHead s \<noteq> 0"
  proof
    assume "s_freeListHead s = 0"
    with ok show False by (simp add: sync_reserveNextArena_none)
  qed
  define h where "h = s_freeListHead s - 1"
  define a where "a = s_freeList s ! h"
  from h0 have hd: "s_freeListHead s = Suc h" by (simp add: h_def)
  have hlen: "h < length (s_freeList s)"
    using d(2,6) hd by simp
  have tk: "take (s_freeListHead s) (s_freeList s) = take h (s_freeList s) @ [a]"
    unfolding hd a_def by (rule take_Suc_conv_app_nth [OF hlen])
  have a_in: "a \<in> set (take (s_freeListHead s) (s_freeList s))"
    by (simp add: tk)
  with d(9) have aN: "a < s_numArenas s" and a_act: "a \<noteq> s_activeArenaId s"
    by auto
  from a_in d(11) have a0: "s_numAllocationsInArena s ! a = 0" by blast
  from d(10) have dist: "distinct (take h (s_freeList s))"
    and a_notin: "a \<notin> set (take h (s_freeList s))"
    by (simp_all add: tk)
  have sub: "set (take h (s_freeList s)) \<subseteq> {0 ..< s_numArenas s} - {a}"
    using d(9) a_notin by (auto simp: tk)
  have zero: "\<forall>x \<in> set (take h (s_freeList s)).
      s_numAllocationsInArena s ! x = 0 \<and> s_numDeallocationsInArena s ! x = 0"
    using d(11) by (simp add: tk)
  have bot: "u64 (s_arenaData s + u32 (a * s_arenaSize s)) = s_arenaData s + s_arenaSize s * a"
    by (rule arena_base [OF d(1) aN])
  have s': "snd (sync_reserveNextArena s) =
      s\<lparr>s_freeListHead := h, s_activeArenaId := a,
        s_data := s_arenaData s + s_arenaSize s * a, s_bytesReserved := 0\<rparr>"
    unfolding sync_reserveNextArena_some [OF h0] a_def h_def
    using bot [unfolded a_def h_def] by simp
  have hN: "h < s_numArenas s" using d(6) hd by simp
  show "sync_inv (snd (sync_reserveNextArena s)) L"
    unfolding s' sync_inv_def
    using d(1,2,3,4,12,13,16) aN hN sub dist zero a0 by simp
  show "s_bytesReserved (snd (sync_reserveNextArena s)) = 0"
    unfolding s' by simp
qed

lemma sync_bump_inv:
  assumes inv: "sync_inv s L" and pos: "0 < m" and mult: "m mod binSize = 0"
    and fit: "s_bytesReserved s + m \<le> s_arenaSize s"
    and s': "s' = s\<lparr>s_bytesReserved := s_bytesReserved s + m,
              s_data := u64 (s_data s + m),
              s_numAllocationsInArena :=
                (s_numAllocationsInArena s)[s_activeArenaId s :=
                   u32 (s_numAllocationsInArena s ! s_activeArenaId s + 1)]\<rparr>"
  shows "sync_inv s' (s_data s # L)"
    and "in_storage (s_numArenas s) (s_arenaSize s) (s_arenaData s) (s_data s)"
    and "s_data s \<noteq> 0"
    and "s_arenaData s mod binSize = 0 \<and> s_arenaSize s mod binSize = 0 \<longrightarrow>
         s_data s mod binSize = 0"
proof -
  note d = sync_invD [OF inv]
  note g = geometry_bounds [OF d(1)]
  define c where "c = s_numAllocationsInArena s ! s_activeArenaId s"
  define r where "r = s_bytesReserved s"
  have r_lt: "r < s_arenaSize s" using pos fit by (simp add: r_def)
  have p: "s_data s = s_arenaData s + s_arenaSize s * s_activeArenaId s + r"
    using d(8) by (simp add: r_def)
  show "s_arenaData s mod binSize = 0 \<and> s_arenaSize s mod binSize = 0 \<longrightarrow>
      s_data s mod binSize = 0"
  proof
    assume "s_arenaData s mod binSize = 0 \<and> s_arenaSize s mod binSize = 0"
    then have "binSize dvd s_arenaData s" "binSize dvd s_arenaSize s"
      by (simp_all add: mod_eq_0_iff_dvd)
    moreover have "binSize dvd r"
      using d(15) by (simp add: r_def mod_eq_0_iff_dvd)
    ultimately have "binSize dvd s_arenaData s + s_arenaSize s * s_activeArenaId s + r"
      by (intro dvd_add dvd_mult2)
    then show "s_data s mod binSize = 0"
      unfolding p by (simp add: mod_eq_0_iff_dvd)
  qed
  show st: "in_storage (s_numArenas s) (s_arenaSize s) (s_arenaData s) (s_data s)"
    unfolding p by (rule arena_slot_in_storage(1) [OF d(1) d(5) r_lt])
  have id: "arenaIdOf (s_arenaData s) (s_arenaSize s) (s_data s) = s_activeArenaId s"
    unfolding p by (rule arena_slot_in_storage(2) [OF d(1) d(5) r_lt])
  show "s_data s \<noteq> 0"
    using st g(4) by (auto simp: in_storage_def)
  have top: "s_arenaSize s * s_activeArenaId s + s_arenaSize s \<le> s_numArenas s * s_arenaSize s"
  proof -
    have "s_arenaSize s * s_activeArenaId s + s_arenaSize s = (s_activeArenaId s + 1) * s_arenaSize s"
      by (simp add: mult.commute)
    also have "\<dots> \<le> s_numArenas s * s_arenaSize s"
      using d(5) by (intro mult_le_mono1) simp
    finally show ?thesis .
  qed
  have "s_data s + m < 2 ^ 64"
    unfolding p using fit top g(5) by (simp add: r_def)
  then have data': "u64 (s_data s + m) = s_arenaData s + s_arenaSize s * s_activeArenaId s + (r + m)"
    by (simp add: u64_id p)
  have "binSize dvd m"
    using mult by (simp add: mod_eq_0_iff_dvd)
  then have m16: "binSize \<le> m"
    using pos by (rule dvd_imp_le)
  have c16: "(c + 1) * binSize \<le> r + m"
    using d(14) m16 by (simp add: c_def r_def)
  then have "(c + 1) * binSize \<le> s_arenaSize s" using fit by (simp add: r_def)
  then have c1: "c + 1 \<le> s_arenaSize s" by (simp add: binSize_def)
  then have "c + 1 < 2 ^ 32" using g(6) by linarith
  then have inc: "u32 (c + 1) = c + 1" by (rule u32_id)
  define cs where "cs = (s_numAllocationsInArena s)[s_activeArenaId s := c + 1]"
  have s'': "s' = s\<lparr>s_bytesReserved := r + m,
              s_data := s_arenaData s + s_arenaSize s * s_activeArenaId s + (r + m),
              s_numAllocationsInArena := cs\<rparr>"
    unfolding s' data' c_def [symmetric] inc r_def [symmetric] cs_def ..
  have act_len: "s_activeArenaId s < length (s_numAllocationsInArena s)"
    using d(3,5) by simp
  have zero: "\<forall>x \<in> set (take (s_freeListHead s) (s_freeList s)).
      cs ! x = 0 \<and> s_numDeallocationsInArena s ! x = 0"
  proof
    fix x assume x: "x \<in> set (take (s_freeListHead s) (s_freeList s))"
    with d(9) have "s_activeArenaId s \<noteq> x" by auto
    then have "cs ! x = s_numAllocationsInArena s ! x"
      unfolding cs_def by (rule nth_list_update_neq)
    with d(11) x show "cs ! x = 0 \<and> s_numDeallocationsInArena s ! x = 0" by simp
  qed
  have cnt: "\<forall>i < s_numArenas s. cs ! i =
      s_numDeallocationsInArena s ! i + arena_count (s_arenaData s) (s_arenaSize s) (s_data s # L) i"
    using d(12) d(5) act_len by (auto simp: cs_def arena_count_Cons id c_def nth_list_update)
  have bound: "\<forall>i < s_numArenas s. cs ! i * binSize \<le> s_arenaSize s"
    using d(16) \<open>(c + 1) * binSize \<le> s_arenaSize s\<close> act_len
    by (auto simp: cs_def nth_list_update)
  have act: "cs ! s_activeArenaId s * binSize \<le> r + m"
    using act_len c16 by (simp add: cs_def)
  have "binSize dvd r + m"
    using d(15) \<open>binSize dvd m\<close> by (simp add: r_def mod_eq_0_iff_dvd)
  then have r16: "(r + m) mod binSize = 0"
    by (simp add: mod_eq_0_iff_dvd)
  have cs_len: "length cs = s_numArenas s" by (simp add: cs_def d(3))
  have fit': "r + m \<le> s_arenaSize s" using fit by (simp add: r_def)
  show "sync_inv s' (s_data s # L)"
    unfolding s'' sync_inv_def
    using d(1,2,4,5,6,9,10,13) cs_len zero cnt bound act r16 fit' st by simp
qed

lemma sync_details_geometry:
  "s_numArenas (snd (sync_do_allocate_details s m)) = s_numArenas s \<and>
   s_arenaSize (snd (sync_do_allocate_details s m)) = s_arenaSize s \<and>
   s_arenaData (snd (sync_do_allocate_details s m)) = s_arenaData s"
proof (induction s m rule: sync_do_allocate_details.induct)
  case (1 s bytes)
  show ?case
  proof (cases "s_arenaSize s < u64 (s_bytesReserved s + bytes)")
    case False
    then show ?thesis
      by (subst (1 2 3) sync_do_allocate_details.simps) (simp add: Let_def)
  next
    case True
    show ?thesis
    proof (cases "fst (sync_reserveNextArena s)")
      case False
      with True show ?thesis
        by (subst (1 2 3) sync_do_allocate_details.simps) (simp add: Let_def)
    next
      case c: True
      have "sync_do_allocate_details s bytes =
          sync_do_allocate_details (snd (sync_reserveNextArena s)) bytes"
        using True c by (subst sync_do_allocate_details.simps) (simp add: Let_def)
      then show ?thesis
        using "1.IH" [OF refl True c] by (simp add: sync_reserve_geometry)
    qed
  qed
qed

lemma sync_details_inv:
  assumes "sync_inv s L" and "0 < m" and "m mod binSize = 0" and "m \<le> s_arenaSize s"
  shows "(fst (sync_do_allocate_details s m) = 0 \<and>
          sync_inv (snd (sync_do_allocate_details s m)) L) \<or>
         (fst (sync_do_allocate_details s m) \<noteq> 0 \<and>
          sync_inv (snd (sync_do_allocate_details s m)) (fst (sync_do_allocate_details s m) # L) \<and>
          in_storage (s_numArenas s) (s_arenaSize s) (s_arenaData s)
            (fst (sync_do_allocate_details s m)) \<and>
          (s_arenaData s mod binSize = 0 \<and> s_arenaSize s mod binSize = 0 \<longrightarrow>
             fst (sync_do_allocate_details s m) mod binSize = 0))"
  using assms
proof (induction s m rule: sync_do_allocate_details.induct)
  case (1 s bytes)
  note d = sync_invD [OF "1.prems"(1)]
  note g = geometry_bounds [OF d(1)]
  have "(2::nat) ^ 32 + 2 ^ 32 < 2 ^ 64" by simp
  then have "s_bytesReserved s + bytes < 2 ^ 64"
    using d(7) "1.prems"(4) g(6) by linarith
  then have nr: "u64 (s_bytesReserved s + bytes) = s_bytesReserved s + bytes"
    by (rule u64_id)
  show ?case
  proof (cases "s_arenaSize s < u64 (s_bytesReserved s + bytes)")
    case False
    define s' where "s' = s\<lparr>s_bytesReserved := s_bytesReserved s + bytes,
              s_data := u64 (s_data s + bytes),
              s_numAllocationsInArena :=
                (s_numAllocationsInArena s)[s_activeArenaId s :=
                   u32 (s_numAllocationsInArena s ! s_activeArenaId s + 1)]\<rparr>"
    have eq: "sync_do_allocate_details s bytes = (s_data s, s')"
      using False by (subst sync_do_allocate_details.simps) (simp add: Let_def s'_def nr)
    from False have fit: "s_bytesReserved s + bytes \<le> s_arenaSize s" by (simp add: nr)
    note b = sync_bump_inv [OF "1.prems"(1,2,3) fit s'_def]
    from b show ?thesis
      unfolding eq by simp
  next
    case True
    show ?thesis
    proof (cases "fst (sync_reserveNextArena s)")
      case False
      with True have "sync_do_allocate_details s bytes = (0, s)"
        by (subst sync_do_allocate_details.simps) (simp add: Let_def)
      with "1.prems"(1) show ?thesis by simp
    next
      case c: True
      have eq: "sync_do_allocate_details s bytes =
          sync_do_allocate_details (snd (sync_reserveNextArena s)) bytes"
        using True c by (subst sync_do_allocate_details.simps) (simp add: Let_def)
      have inv': "sync_inv (snd (sync_reserveNextArena s)) L"
        by (rule sync_reserve_inv(1) [OF "1.prems"(1) c])
      have le: "bytes \<le> s_arenaSize (snd (sync_reserveNextArena s))"
        using "1.prems"(4) by (simp add: sync_reserve_geometry)
      from "1.IH" [OF refl True c inv' "1.prems"(2,3) le] show ?thesis
        unfolding eq by (simp add: sync_reserve_geometry)
    qed
  qed
qed

lemma bins_rounding:
  assumes "b < 2 ^ 32" and "0 < b"
  shows "u64 (u64 (u64 b + binSize - 1) div binSize * binSize) = (b + 15) div 16 * 16"
    and "0 < (b + 15) div 16 * 16" and "((b + 15) div 16 * 16) mod binSize = 0"
proof -
  have "b + 15 < 2 ^ 64" using assms(1) by simp
  moreover have "b < 2 ^ 64" using assms(1) by simp
  moreover have "(b + 15) div 16 * 16 \<le> b + 15" by simp
  ultimately show "u64 (u64 (u64 b + binSize - 1) div binSize * binSize) = (b + 15) div 16 * 16"
    by (simp add: binSize_def u64_id)
  have "1 \<le> (b + 15) div 16" using assms(2) by (simp add: Suc_le_eq div_greater_zero_iff)
  then show "0 < (b + 15) div 16 * 16" by simp
  show "((b + 15) div 16 * 16) mod binSize = 0" by (simp add: binSize_def)
qed

lemma sync_allocate_inv:
  assumes inv: "sync_inv s L" and req: "valid_request b a"
  shows "case sync_do_allocate True s b a of
           (Inl e, s') \<Rightarrow> sync_inv s' L
         | (Inr p, s') \<Rightarrow>
             if p = 0 then sync_inv s' L
             else sync_inv s' (p # L) \<and> 0 < b \<and>
                  in_storage (s_numArenas s) (s_arenaSize s) (s_arenaData s) p \<and>
                  (s_arenaData s mod binSize = 0 \<and> s_arenaSize s mod binSize = 0 \<longrightarrow>
                     p mod binSize = 0)"
proof (cases "b = 0")
  case True
  with inv show ?thesis by (simp add: sync_do_allocate_def)
next
  case False
  then have pos: "0 < b" by simp
  from req have b32: "b < 2 ^ 32"
    by (elim valid_requestD) linarith
  define m where "m = (b + 15) div 16 * 16"
  note r = bins_rounding [OF b32 pos, folded m_def]
  show ?thesis
  proof (cases "s_arenaSize s < m")
    case True
    with inv False show ?thesis
      unfolding sync_do_allocate_def Let_def r(1) by simp
  next
    case fits: False
    then have le: "m \<le> s_arenaSize s" by simp
    obtain p s' where eq: "sync_do_allocate_details s m = (p, s')"
      by (cases "sync_do_allocate_details s m")
    from sync_details_inv [OF inv r(2,3) le] show ?thesis
      using False pos fits unfolding sync_do_allocate_def Let_def r(1) by (auto simp: eq)
  qed
qed

lemma sync_allocate_geometry:
  "s_numArenas (snd (sync_do_allocate ee s b a)) = s_numArenas s \<and>
   s_arenaSize (snd (sync_do_allocate ee s b a)) = s_arenaSize s \<and>
   s_arenaData (snd (sync_do_allocate ee s b a)) = s_arenaData s"
proof -
  define m where "m = u64 (u64 (u64 b + binSize - 1) div binSize * binSize)"
  show ?thesis
    using sync_details_geometry [of s m]
    unfolding sync_do_allocate_def Let_def m_def [symmetric]
    by (cases "sync_do_allocate_details s m") auto
qed

lemma sync_deallocate_geometry:
  "s_numArenas (snd (sync_do_deallocate ee s p b a)) = s_numArenas s \<and>
   s_arenaSize (snd (sync_do_deallocate ee s p b a)) = s_arenaSize s \<and>
   s_arenaData (snd (sync_do_deallocate ee s p b a)) = s_arenaData s"
  by (auto simp: sync_do_deallocate_def Let_def sync_resetActiveArena_def sync_releaseArena_def
      split: sum.splits)

lemma sync_deallocate_inv:
  assumes inv: "sync_inv s L" and live: "p \<in> set L"
  shows "fst (sync_do_deallocate True s p b a) = Inr () \<and>
         sync_inv (snd (sync_do_deallocate True s p b a)) (remove1 p L)"
proof -
  note d = sync_invD [OF inv]
  note g = geometry_bounds [OF d(1)]
  define i where "i = arenaIdOf (s_arenaData s) (s_arenaSize s) p"
  define al where "al = s_numAllocationsInArena s ! i"
  define de where "de = s_numDeallocationsInArena s ! i"
  define ds where "ds = (s_numDeallocationsInArena s)[i := de + 1]"
  from d(13) live have st: "in_storage (s_numArenas s) (s_arenaSize s) (s_arenaData s) p" by blast
  have iN: "i < s_numArenas s"
    unfolding i_def by (rule arenaIdOf_in_storage [OF d(1) st])
  have ilen: "i < length (s_numDeallocationsInArena s)" "i < length (s_numAllocationsInArena s)"
    using iN d(3,4) by simp_all
  have al_eq: "al = de + arena_count (s_arenaData s) (s_arenaSize s) L i"
    using d(12) iN by (simp add: al_def de_def)
  have c_pos: "0 < arena_count (s_arenaData s) (s_arenaSize s) L i"
    unfolding i_def by (rule arena_count_pos [OF live])
  have "al * binSize \<le> s_arenaSize s" using d(16) iN by (simp add: al_def)
  then have "al \<le> s_arenaSize s" by (simp add: binSize_def)
  then have "de + 1 < 2 ^ 32" using g(6) al_eq c_pos by linarith
  then have "u32 (de + 1) = de + 1" by (rule u32_id)
  then have inc: "u32 (Suc de) = Suc de" by simp
  have live': "\<forall>q \<in> set (remove1 p L). in_storage (s_numArenas s) (s_arenaSize s) (s_arenaData s) q"
    using d(13) by (meson notin_set_remove1)
  have cnt: "\<forall>j < s_numArenas s. s_numAllocationsInArena s ! j =
      ds ! j + arena_count (s_arenaData s) (s_arenaSize s) (remove1 p L) j"
    using d(12) ilen c_pos
    by (auto simp: ds_def nth_list_update arena_count_remove1 [OF live] i_def [symmetric] de_def)
  have ds_len: "length ds = s_numArenas s" by (simp add: ds_def d(4))
  have not_free: "i \<notin> set (take (s_freeListHead s) (s_freeList s))"
    using d(11) c_pos al_eq by (auto simp: al_def)
  have zero: "\<forall>x \<in> set (take (s_freeListHead s) (s_freeList s)).
      s_numAllocationsInArena s ! x = 0 \<and> ds ! x = 0"
  proof
    fix x assume x: "x \<in> set (take (s_freeListHead s) (s_freeList s))"
    with not_free have "i \<noteq> x" by auto
    then have "ds ! x = s_numDeallocationsInArena s ! x"
      unfolding ds_def by (rule nth_list_update_neq)
    with d(11) x show "s_numAllocationsInArena s ! x = 0 \<and> ds ! x = 0" by simp
  qed
  have gen: "sync_do_deallocate True s p b a =
      (let s1 = s\<lparr>s_numDeallocationsInArena := ds\<rparr>
       in if al = de + 1 then
            (if i = s_activeArenaId s then (Inr (), sync_resetActiveArena s1)
             else (case sync_releaseArena s1 i of Inl e \<Rightarrow> (Inl e, s1) | Inr s2 \<Rightarrow> (Inr (), s2)))
          else (Inr (), s1))"
    using g(2) iN ilen
    by (simp add: sync_do_deallocate_def Let_def i_def [symmetric] de_def [symmetric]
        al_def [symmetric] inc ds_def)
  show ?thesis
  proof (cases "al = de + 1")
    case False
    then have eq: "sync_do_deallocate True s p b a = (Inr (), s\<lparr>s_numDeallocationsInArena := ds\<rparr>)"
      by (simp add: gen)
    show ?thesis
      unfolding eq sync_inv_def
      using d(1,2,3,5,6,7,8,9,10,14,15,16) ds_len zero cnt live' by simp
  next
    case one: True
    then have none: "arena_count (s_arenaData s) (s_arenaSize s) (remove1 p L) i = 0"
      using al_eq by (simp add: arena_count_remove1 [OF live] i_def [symmetric])
    define as0 where "as0 = (s_numAllocationsInArena s)[i := 0]"
    define ds0 where "ds0 = ds[i := 0]"
    have as0_len: "length as0 = s_numArenas s" by (simp add: as0_def d(3))
    have ds0_len: "length ds0 = s_numArenas s" by (simp add: ds0_def ds_len)
    have cnt0: "\<forall>j < s_numArenas s. as0 ! j =
        ds0 ! j + arena_count (s_arenaData s) (s_arenaSize s) (remove1 p L) j"
      using cnt none ilen by (auto simp: as0_def ds0_def ds_def nth_list_update)
    have bound0: "\<forall>j < s_numArenas s. as0 ! j * binSize \<le> s_arenaSize s"
      using d(16) ilen by (auto simp: as0_def nth_list_update)
    have zero0: "\<forall>x \<in> set (take (s_freeListHead s) (s_freeList s)). as0 ! x = 0 \<and> ds0 ! x = 0"
      using zero ilen by (auto simp: as0_def ds0_def ds_def nth_list_update)
    have i0: "as0 ! i = 0 \<and> ds0 ! i = 0"
      using ilen by (simp add: as0_def ds0_def ds_def)
    show ?thesis
    proof (cases "i = s_activeArenaId s")
      case True
      have bot: "u64 (s_arenaData s + u32 (s_activeArenaId s * s_arenaSize s)) =
          s_arenaData s + s_arenaSize s * s_activeArenaId s"
        by (rule arena_base [OF d(1) d(5)])
      have eq: "sync_do_deallocate True s p b a =
          (Inr (), s\<lparr>s_data := s_arenaData s + s_arenaSize s * s_activeArenaId s,
                     s_bytesReserved := 0,
                     s_numAllocationsInArena := as0,
                     s_numDeallocationsInArena := ds0\<rparr>)"
        using one True bot by (simp add: gen sync_resetActiveArena_def as0_def ds0_def)
      show ?thesis
        unfolding eq sync_inv_def
        using d(1,2,5,6,9,10) as0_len ds0_len zero0 cnt0 live' bound0 i0 True by simp
    next
      case False
      let ?fl = "(s_freeList s)[s_freeListHead s := i]"
      have hlen: "s_freeListHead s < length (s_freeList s)" using d(2,6) by simp
      have eq: "sync_do_deallocate True s p b a =
          (Inr (), s\<lparr>s_freeList := ?fl, s_freeListHead := s_freeListHead s + 1,
                     s_numAllocationsInArena := as0,
                     s_numDeallocationsInArena := ds0\<rparr>)"
        using one False d(6) by (simp add: gen sync_releaseArena_def as0_def ds0_def)
      have tk: "take (Suc (s_freeListHead s)) ?fl = take (s_freeListHead s) (s_freeList s) @ [i]"
        using hlen by (simp add: take_Suc_conv_app_nth)
      have sub: "set (take (Suc (s_freeListHead s)) ?fl) \<subseteq>
          {0 ..< s_numArenas s} - {s_activeArenaId s}"
        using d(9) iN False by (auto simp: tk)
      have dist: "distinct (take (Suc (s_freeListHead s)) ?fl)"
        using d(10) not_free by (simp add: tk)
      have "length (take (Suc (s_freeListHead s)) ?fl) < s_numArenas s"
        by (rule free_list_room [OF dist sub d(5)])
      then have head: "Suc (s_freeListHead s) < s_numArenas s"
        using hlen by simp
      from zero0 i0 have zero': "\<forall>x \<in> set (take (Suc (s_freeListHead s)) ?fl).
          as0 ! x = 0 \<and> ds0 ! x = 0"
        by (simp add: tk)
      have act: "as0 ! s_activeArenaId s * binSize \<le> s_bytesReserved s"
        using d(14) False ilen by (simp add: as0_def)
      show ?thesis
        unfolding eq sync_inv_def
        using d(1,2,5,7,8,15) as0_len ds0_len head sub dist zero' cnt0 live' act bound0 by simp
    qed
  qed
qed

subsection \<open>The constructed synchronized pool\<close>

lemma sync_init_geometry:
  "s_numArenas (sync_initializeArenas n sz base) = n \<and>
   s_arenaSize (sync_initializeArenas n sz base) = sz \<and>
   s_arenaData (sync_initializeArenas n sz base) = base"
  by (simp add: sync_initializeArenas_def sync_reserveNextArena_def Let_def)

lemma sync_initializeArenas_eq:
  assumes "wf_geometry n sz base"
  shows "sync_initializeArenas n sz base =
     \<lparr>s_numArenas = n, s_arenaSize = sz, s_arenaData = base,
      s_data = base + sz * 0, s_bytesReserved = 0, s_activeArenaId = 0,
      s_freeListHead = n - 1,
      s_freeList = map (\<lambda>i. n - 1 - i) [0 ..< n],
      s_numAllocationsInArena = replicate n 0,
      s_numDeallocationsInArena = replicate n 0\<rparr>"
proof -
  from assms have n: "0 < n" by (simp add: wf_geometry_def)
  then have last: "map (\<lambda>i. n - 1 - i) [0 ..< n] ! (n - 1) = 0" by simp
  have bot: "u64 (base + u32 (0 * sz)) = base + sz * 0"
    by (rule arena_base [OF assms n])
  show ?thesis
    using n last bot by (simp add: sync_initializeArenas_def sync_reserveNextArena_def Let_def)
qed

lemma sync_init_inv:
  assumes "wf_geometry n sz base"
  shows "sync_inv (sync_initializeArenas n sz base) []"
proof -
  from assms have n: "0 < n" by (simp add: wf_geometry_def)
  define fl where "fl = map (\<lambda>i. n - 1 - i) [0 ..< n]"
  define h where "h = n - 1"
  have eq: "sync_initializeArenas n sz base =
     \<lparr>s_numArenas = n, s_arenaSize = sz, s_arenaData = base,
      s_data = base + sz * 0, s_bytesReserved = 0, s_activeArenaId = 0,
      s_freeListHead = h, s_freeList = fl,
      s_numAllocationsInArena = replicate n 0,
      s_numDeallocationsInArena = replicate n 0\<rparr>"
    unfolding fl_def h_def by (rule sync_initializeArenas_eq [OF assms])
  have tk: "take h fl = map (\<lambda>i. n - 1 - i) [0 ..< n - 1]"
    unfolding fl_def h_def by (simp add: take_map)
  have sub: "set (take h fl) \<subseteq> {0 ..< n} - {0}"
    unfolding tk by auto
  have "inj_on (\<lambda>i. n - 1 - i) (set [0 ..< n - 1])"
  proof (rule inj_onI)
    fix i j
    assume "i \<in> set [0 ..< n - 1]" and "j \<in> set [0 ..< n - 1]"
    then have "i < n - 1" "j < n - 1" by simp_all
    moreover assume "n - 1 - i = n - 1 - j"
    ultimately show "i = j" by linarith
  qed
  then have dist: "distinct (take h fl)"
    unfolding tk distinct_map using distinct_upt by blast
  have zero: "\<forall>a \<in> set (take h fl). replicate n (0::nat) ! a = 0"
    using sub by auto
  have len: "length fl = n" by (simp add: fl_def)
  have hn: "h < n" using n by (simp add: h_def)
  show ?thesis
    unfolding eq sync_inv_def
    using assms n sub dist zero len hn by (simp add: arena_count_def)
qed

lemma sync_numberOfAllocations_live:
  assumes inv: "sync_inv s L"
  shows "sync_numberOfAllocations s = length L"
proof -
  note d = sync_invD [OF inv]
  note g = geometry_bounds [OF d(1)]
  have ids: "\<forall>p \<in> set L. arenaIdOf (s_arenaData s) (s_arenaSize s) p < s_numArenas s"
    using d(13) arenaIdOf_in_storage [OF d(1)] by blast
  have each: "sync_allocationsInArena s i = arena_count (s_arenaData s) (s_arenaSize s) L i"
    if "i < s_numArenas s" for i
  proof -
    have "s_numAllocationsInArena s ! i * binSize \<le> s_arenaSize s" using d(16) that by simp
    then have "s_numAllocationsInArena s ! i \<le> s_arenaSize s" by (simp add: binSize_def)
    then have lt: "s_numAllocationsInArena s ! i < 2 ^ 32" using g(6) by linarith
    have le: "s_numDeallocationsInArena s ! i \<le> s_numAllocationsInArena s ! i"
      using d(12) that by simp
    show ?thesis
      unfolding sync_allocationsInArena_def sub32_exact [OF le lt] using d(12) that by simp
  qed
  then have m: "map (sync_allocationsInArena s) [0 ..< s_numArenas s] =
      map (arena_count (s_arenaData s) (s_arenaSize s) L) [0 ..< s_numArenas s]"
    by simp
  have total: "sum_list (map (sync_allocationsInArena s) [0 ..< s_numArenas s]) = length L"
    unfolding m by (rule sum_arena_count [OF ids])
  have "arena_count (s_arenaData s) (s_arenaSize s) L i \<le> s_arenaSize s"
    if "i < s_numArenas s" for i
  proof -
    have "s_numAllocationsInArena s ! i * binSize \<le> s_arenaSize s" using d(16) that by simp
    then have "s_numAllocationsInArena s ! i \<le> s_arenaSize s" by (simp add: binSize_def)
    with d(12) that show ?thesis by simp
  qed
  then have "sum_list (map (arena_count (s_arenaData s) (s_arenaSize s) L) [0 ..< s_numArenas s]) \<le>
      sum_list (map (\<lambda>i. s_arenaSize s) [0 ..< s_numArenas s])"
    by (intro sum_list_mono) simp
  also have "\<dots> = s_numArenas s * s_arenaSize s"
    by (simp add: sum_list_triv)
  finally have "length L < 2 ^ 64"
    using total g(3) unfolding m by simp
  then show ?thesis
    by (simp add: sync_numberOfAllocations_def total u64_id)
qed

lemma sync_start_inv: "wf_geometry n sz base \<Longrightarrow> sync_run_inv n sz base (sync_start n sz base)"
  by (simp add: sync_run_inv_def sync_start_def sync_init_inv sync_init_geometry)

lemma sync_step_inv:
  assumes "sync_run_inv n sz base r" and "sync_step r x = Some r'"
  shows "sync_run_inv n sz base r'"
proof (cases x)
  case (Allocate b a)
  from assms(1) have inv: "sync_inv (the_pool r) (live r)" by (simp add: sync_run_inv_def)
  from assms(2) Allocate have req: "valid_request b a"
    by (auto split: if_splits)
  obtain res s' where eq: "sync_do_allocate True (the_pool r) b a = (res, s')"
    by (cases "sync_do_allocate True (the_pool r) b a")
  from sync_allocate_geometry [of True "the_pool r" b a] assms(1)
  have geo: "s_numArenas s' = n" "s_arenaSize s' = sz" "s_arenaData s' = base"
    by (simp_all add: eq sync_run_inv_def)
  from sync_allocate_inv [OF inv req] assms geo show ?thesis
    by (auto simp: Allocate req eq sync_run_inv_def split: sum.splits if_splits)
next
  case (Deallocate p b a)
  from assms(1) have inv: "sync_inv (the_pool r) (live r)" by (simp add: sync_run_inv_def)
  from assms(2) Deallocate have live: "p \<in> set (live r)"
    by (auto split: if_splits)
  have "0 < length (live r)" using live by (cases "live r") auto
  moreover have "length (remove1 p (live r)) = length (live r) - 1"
    using live by (simp add: length_remove1)
  ultimately have len: "length (remove1 p (live r)) + (numDeallocates r + 1) =
      length (live r) + numDeallocates r" by simp
  from sync_deallocate_inv [OF inv live, of b a]
    sync_deallocate_geometry [of True "the_pool r" p b a] assms len show ?thesis
    by (auto simp: Deallocate live sync_run_inv_def)
qed

lemma sync_run_inv_preserved:
  "sync_run r xs = Some r' \<Longrightarrow> sync_run_inv n sz base r \<Longrightarrow> sync_run_inv n sz base r'"
proof (induction xs arbitrary: r)
  case Nil
  then show ?case by simp
next
  case (Cons x xs)
  from Cons.prems(1) obtain r1 where s: "sync_step r x = Some r1"
    and rest: "sync_run r1 xs = Some r'"
    by (auto split: option.splits)
  from Cons.IH [OF rest sync_step_inv [OF Cons.prems(2) s]] show ?case .
qed

section \<open>Pointers and counts after any sequence of calls\<close>

lemma run_reaches_inv:
  assumes "wf_geometry n sz base" and "run (start n sz base) ops = Some r"
  shows "run_inv n sz base r"
  by (rule run_inv_preserved [OF assms(2) start_inv [OF assms(1)]])

lemma sync_run_reaches_inv:
  assumes "wf_geometry n sz base" and "sync_run (sync_start n sz base) ops = Some r"
  shows "sync_run_inv n sz base r"
  by (rule sync_run_inv_preserved [OF assms(2) sync_start_inv [OF assms(1)]])

lemma pow2_le_bin_dvd:
  assumes "valid_request b a" and "a \<le> binSize"
  shows "a dvd binSize"
proof -
  from assms(1) obtain k where k: "a = 2 ^ k" by (rule valid_requestD)
  have "k \<le> 4"
  proof (rule ccontr)
    assume "\<not> k \<le> 4"
    then have "5 \<le> k" by simp
    then have "(2::nat) ^ 5 \<le> 2 ^ k" by (intro power_increasing) simp_all
    with assms(2) k show False by (simp add: binSize_def)
  qed
  then have "(2::nat) ^ k dvd 2 ^ 4" by (rule le_imp_power_dvd)
  then show ?thesis by (simp add: k binSize_def)
qed

lemma unsync_pointer:
  assumes "wf_geometry n sz base" and "run (start n sz base) ops = Some r"
    and req: "valid_request b a" and pos: "0 < b"
    and eq: "do_allocate True (the_pool r) b a = (Inr p, s')"
  shows "p mod a = 0" and "in_storage n sz base p"
proof -
  have ri: "run_inv n sz base r" by (rule run_reaches_inv [OF assms(1,2)])
  then have inv: "pool_inv (the_pool r) (live r)" by (simp add: run_inv_def)
  have "p \<noteq> 0"
    using eq pos by (auto simp: do_allocate_def split: prod.splits if_splits)
  with allocate_inv [OF inv req] ri show "p mod a = 0" and "in_storage n sz base p"
    by (simp_all add: eq run_inv_def)
qed

lemma sync_pointer:
  assumes "wf_geometry n sz base" and "sync_run (sync_start n sz base) ops = Some r"
    and req: "valid_request b a"
    and eq: "sync_do_allocate True (the_pool r) b a = (Inr p, t)" and nz: "p \<noteq> 0"
  shows "in_storage n sz base p"
    and "base mod binSize = 0 \<and> sz mod binSize = 0 \<Longrightarrow> p mod binSize = 0"
    and "base mod binSize = 0 \<and> sz mod binSize = 0 \<and> a \<le> binSize \<Longrightarrow> p mod a = 0"
proof -
  have ri: "sync_run_inv n sz base r" by (rule sync_run_reaches_inv [OF assms(1,2)])
  then have inv: "sync_inv (the_pool r) (live r)" by (simp add: sync_run_inv_def)
  from sync_allocate_inv [OF inv req] ri nz show st: "in_storage n sz base p"
    by (simp add: eq sync_run_inv_def)
  from sync_allocate_inv [OF inv req] ri nz
  show al: "p mod binSize = 0" if "base mod binSize = 0 \<and> sz mod binSize = 0"
    using that by (simp add: eq sync_run_inv_def)
  show "p mod a = 0" if c: "base mod binSize = 0 \<and> sz mod binSize = 0 \<and> a \<le> binSize"
  proof -
    from c al have "binSize dvd p" by (simp add: mod_eq_0_iff_dvd)
    moreover from c have "a dvd binSize" by (blast intro: pow2_le_bin_dvd [OF req])
    ultimately have "a dvd p" by (rule dvd_trans [rotated])
    then show "p mod a = 0" by (simp add: mod_eq_0_iff_dvd)
  qed
qed

lemma valid_request_16_16: "valid_request 16 16"
  unfolding valid_request_def by (auto intro!: bexI [of _ 4])

lemma valid_request_16_32: "valid_request 16 32"
  unfolding valid_request_def by (auto intro!: bexI [of _ 5])

lemma wf_geometry_example: "wf_geometry 2 256 4096"
  by (simp add: wf_geometry_def)

lemma wrap0_allocate_res:
  "do_allocate True wrap0 16 16 =
     (Inr 4336, \<lparr>numArenas = 2, arenaSize = 256, arenaData = 4096, data = 4336,
        bytesLeft = 240, activeArenaId = 0, freeListHead = 1, freeList = [1, 0],
        numAllocationsInArena = [1, 0]\<rparr>)"
  unfolding wrap0_eq
  apply (simp add: do_allocate_def)
  apply (subst do_allocate_details.simps)
  apply (simp add: details_eval)
  done

lemma wrap0a_eq:
  "wrap0a = \<lparr>numArenas = 2, arenaSize = 256, arenaData = 4096, data = 4336,
        bytesLeft = 240, activeArenaId = 0, freeListHead = 1, freeList = [1, 0],
        numAllocationsInArena = [1, 0]\<rparr>"
  unfolding wrap0a_def wrap0_allocate_res by simp

lemma wrap0_allocate: "do_allocate True wrap0 16 16 = (Inr 4336, wrap0a)"
  unfolding wrap0a_eq by (rule wrap0_allocate_res)

lemma wrap0_round_trip: "do_deallocate True wrap0a 4336 16 16 = (Inr (), wrap0)"
  unfolding wrap0a_eq wrap0_eq by (simp add: dealloc_eval)

lemma run_example:
  "run (start 2 256 4096) [Allocate 16 16, Deallocate 4336 16 16] = Some trace_end"
proof -
  have s: "start 2 256 4096 = \<lparr>the_pool = wrap0, live = [], numAllocates = 0, numDeallocates = 0\<rparr>"
    by (simp add: start_def wrap0_def)
  show ?thesis
    unfolding s by (simp add: valid_request_16_16 wrap0_allocate wrap0_round_trip trace_end_def)
qed

lemma sync0_allocate_res:
  "sync_do_allocate True sync0 16 16 =
     (Inr 4096, \<lparr>s_numArenas = 2, s_arenaSize = 256, s_arenaData = 4096, s_data = 4112,
        s_bytesReserved = 16, s_activeArenaId = 0, s_freeListHead = 1, s_freeList = [1, 0],
        s_numAllocationsInArena = [1, 0], s_numDeallocationsInArena = [0, 0]\<rparr>)"
  unfolding sync0_eq
  apply (simp add: sync_do_allocate_def binSize_def u64_def)
  apply (subst sync_do_allocate_details.simps)
  apply (simp add: u32_def u64_def Let_def)
  done

lemma sync0a_eq:
  "sync0a = \<lparr>s_numArenas = 2, s_arenaSize = 256, s_arenaData = 4096, s_data = 4112,
        s_bytesReserved = 16, s_activeArenaId = 0, s_freeListHead = 1, s_freeList = [1, 0],
        s_numAllocationsInArena = [1, 0], s_numDeallocationsInArena = [0, 0]\<rparr>"
  unfolding sync0a_def sync0_allocate_res by simp

lemma sync0_allocate: "sync_do_allocate True sync0 16 16 = (Inr 4096, sync0a)"
  unfolding sync0a_eq by (rule sync0_allocate_res)

lemma sync0_round_trip: "sync_do_deallocate True sync0a 4096 16 16 = (Inr (), sync0)"
  unfolding sync0a_eq sync0_eq
  by (simp add: sync_do_deallocate_def arenaIdOf_def sub64_def u32_def u64_def Let_def
      sync_resetActiveArena_def)

lemma sync_run_example:
  "sync_run (sync_start 2 256 4096) [Allocate 16 16, Deallocate 4096 16 16] = Some sync_trace_end"
proof -
  have s: "sync_start 2 256 4096 =
      \<lparr>the_pool = sync0, live = [], numAllocates = 0, numDeallocates = 0\<rparr>"
    by (simp add: sync_start_def sync0_def)
  show ?thesis
    unfolding s
    by (simp add: valid_request_16_16 sync0_allocate sync0_round_trip sync_trace_end_def)
qed

lemma numberOfAllocations_wrap0: "numberOfAllocations wrap0 = 0"
  unfolding wrap0_def by (rule numberOfAllocations_initial)

lemma sync1_allocate: "sync_do_allocate True sync0 16 32 = (Inr 4096, sync1)"
  unfolding sync1_eq by (rule sync1_res)

text \<open>
  C4, as stated: in every engine a successful \<open>allocate(bytes, a)\<close> returns an address
  that is a multiple of \<open>a\<close>. In the synchronized pool at the address 4096 the second
  allocation of 16 bytes aligned to 32 returns 4112, which is 16 modulo 32.
\<close>

theorem synchronized_allocate_ignores_alignment:
  "sync_run (sync_start 2 256 4096) [Allocate 16 32] =
     Some \<lparr>the_pool = sync1, live = [4096], numAllocates = 1, numDeallocates = 0\<rparr> \<and>
   valid_request 16 32 \<and>
   fst (sync_do_allocate True sync1 16 32) = Inr 4112 \<and>
   (4112::nat) mod 32 = 16"
proof -
  have s: "sync_start 2 256 4096 =
      \<lparr>the_pool = sync0, live = [], numAllocates = 0, numDeallocates = 0\<rparr>"
    by (simp add: sync_start_def sync0_def)
  have "sync_run (sync_start 2 256 4096) [Allocate 16 32] =
     Some \<lparr>the_pool = sync1, live = [4096], numAllocates = 1, numDeallocates = 0\<rparr>"
    unfolding s by (simp add: valid_request_16_32 sync1_allocate)
  then show ?thesis
    by (simp add: valid_request_16_32 sync2_res)
qed

text \<open>
  C4, amended. After every sequence of calls within the contract, on a pool of
  well-formed geometry: in the unsynchronized engine a successful \<open>allocate(bytes, a)\<close>
  with \<open>bytes > 0\<close>, \<open>a\<close> a power of two and \<open>bytes + a \<le> 2^32\<close> returns an
  address that is a multiple of \<open>a\<close> and lies inside the storage; in the synchronized
  engine a returned non-null address lies inside the storage and is a multiple of
  \<open>binSize\<close> (16) when the storage address and the arena size are, hence a multiple of
  \<open>a\<close> for \<open>a \<le> 16\<close>; the alignment argument itself is not read there.
\<close>

theorem allocated_pointer_aligned_in_storage:
  "(wf_geometry n sz base \<and> run (start n sz base) ops = Some r \<and> valid_request b a \<and>
    0 < b \<and> do_allocate True (the_pool r) b a = (Inr p, s') \<longrightarrow>
      p mod a = 0 \<and> in_storage n sz base p) \<and>
   (wf_geometry n sz base \<and> sync_run (sync_start n sz base) ops' = Some r' \<and>
    valid_request b a \<and> sync_do_allocate True (the_pool r') b a = (Inr p', t') \<and> p' \<noteq> 0 \<longrightarrow>
      in_storage n sz base p' \<and>
      (base mod binSize = 0 \<and> sz mod binSize = 0 \<longrightarrow> p' mod binSize = 0) \<and>
      (base mod binSize = 0 \<and> sz mod binSize = 0 \<and> a \<le> binSize \<longrightarrow> p' mod a = 0))"
proof -
  have u: "p mod a = 0 \<and> in_storage n sz base p"
    if h: "wf_geometry n sz base \<and> run (start n sz base) ops = Some r \<and> valid_request b a \<and>
      0 < b \<and> do_allocate True (the_pool r) b a = (Inr p, s')"
  proof -
    from h have 1: "wf_geometry n sz base" and 2: "run (start n sz base) ops = Some r"
      and 3: "valid_request b a" and 4: "0 < b"
      and 5: "do_allocate True (the_pool r) b a = (Inr p, s')"
      by simp_all
    from unsync_pointer [OF 1 2 3 4 5] show ?thesis by simp
  qed
  have s: "in_storage n sz base p' \<and>
      (base mod binSize = 0 \<and> sz mod binSize = 0 \<longrightarrow> p' mod binSize = 0) \<and>
      (base mod binSize = 0 \<and> sz mod binSize = 0 \<and> a \<le> binSize \<longrightarrow> p' mod a = 0)"
    if h: "wf_geometry n sz base \<and> sync_run (sync_start n sz base) ops' = Some r' \<and>
      valid_request b a \<and> sync_do_allocate True (the_pool r') b a = (Inr p', t') \<and> p' \<noteq> 0"
  proof -
    from h have 1: "wf_geometry n sz base"
      and 2: "sync_run (sync_start n sz base) ops' = Some r'"
      and 3: "valid_request b a"
      and 4: "sync_do_allocate True (the_pool r') b a = (Inr p', t')" and 5: "p' \<noteq> 0"
      by simp_all
    note t = sync_pointer [OF 1 2 3 4 5]
    from t(1) t(2) t(3) show ?thesis by (intro conjI impI)
  qed
  from u s show ?thesis by blast
qed

text \<open>The amended statement at the two-arena pools, for a block of 16 bytes aligned to 16.\<close>

theorem allocated_pointer_aligned_in_storage_witness:
  "wf_geometry 2 256 4096 \<and>
   run (start 2 256 4096) [Allocate 16 16, Deallocate 4336 16 16] = Some trace_end \<and>
   valid_request 16 16 \<and>
   do_allocate True (the_pool trace_end) 16 16 = (Inr 4336, wrap0a) \<and>
   (4336::nat) mod 16 = 0 \<and> in_storage 2 256 4096 4336 \<and>
   sync_run (sync_start 2 256 4096) [Allocate 16 16, Deallocate 4096 16 16] = Some sync_trace_end \<and>
   sync_do_allocate True (the_pool sync_trace_end) 16 16 = (Inr 4096, sync0a) \<and>
   in_storage 2 256 4096 4096 \<and>
   (4096::nat) mod binSize = 0 \<and> (256::nat) mod binSize = 0 \<and> 16 \<le> binSize \<and>
   (4096::nat) mod 16 = 0"
proof -
  have a: "do_allocate True (the_pool trace_end) 16 16 = (Inr 4336, wrap0a)"
    by (simp add: trace_end_def wrap0_allocate)
  have b: "sync_do_allocate True (the_pool sync_trace_end) 16 16 = (Inr 4096, sync0a)"
    by (simp add: sync_trace_end_def sync0_allocate)
  have c: "(4096::nat) mod binSize = 0" "(256::nat) mod binSize = 0" "16 \<le> binSize"
    by (simp_all add: binSize_def)
  note t = allocated_pointer_aligned_in_storage [of 2 256 4096 "[Allocate 16 16, Deallocate 4336 16 16]" trace_end
      16 16 4336 wrap0a "[Allocate 16 16, Deallocate 4096 16 16]" sync_trace_end 4096 sync0a]
  have u: "(4336::nat) mod 16 = 0 \<and> in_storage 2 256 4096 4336"
    using t wf_geometry_example run_example valid_request_16_16 a by simp
  have v: "in_storage 2 256 4096 4096 \<and> (4096::nat) mod 16 = 0"
    using t wf_geometry_example sync_run_example valid_request_16_16 b c by simp
  show ?thesis
    using wf_geometry_example run_example sync_run_example valid_request_16_16 a b c u v
    by blast
qed

subsection \<open>The live addresses are pairwise different\<close>

lemma arena_count_zero:
  "arena_count base sz L i = 0 \<Longrightarrow> q \<in> set L \<Longrightarrow> arenaIdOf base sz q \<noteq> i"
  using arena_count_pos [of q L base sz] by auto

lemma empty_active_ordered:
  assumes inv: "pool_inv s L" and dist: "distinct L"
    and empty: "numAllocationsInArena s ! activeArenaId s = 0"
  shows "bump_ordered s L"
proof -
  note d = pool_invD [OF inv]
  from d(11) d(4) empty
  have "arena_count (arenaData s) (arenaSize s) L (activeArenaId s) = 0" by simp
  then have "\<forall>q \<in> set L. arenaIdOf (arenaData s) (arenaSize s) q \<noteq> activeArenaId s"
    by (blast dest: arena_count_zero)
  with dist show ?thesis by (simp add: bump_ordered_def)
qed

lemma reserve_ordered:
  assumes inv: "pool_inv s L" and ok: "fst (reserveNextArena s)" and ord: "bump_ordered s L"
  shows "bump_ordered (snd (reserveNextArena s)) L"
proof -
  have h0: "freeListHead s \<noteq> 0"
  proof
    assume "freeListHead s = 0"
    with ok show False by (simp add: reserveNextArena_none)
  qed
  define s1 where "s1 = snd (reserveNextArena s)"
  have inv1: "pool_inv s1 L"
    unfolding s1_def by (rule reserve_inv [OF inv ok])
  have "bytesLeft s1 = arenaSize s1"
    by (simp add: s1_def reserveNextArena_some [OF h0])
  with pool_invD(13) [OF inv1] have "numAllocationsInArena s1 ! activeArenaId s1 = 0" by simp
  moreover from ord have "distinct L" by (simp add: bump_ordered_def)
  ultimately show ?thesis
    unfolding s1_def [symmetric] by (intro empty_active_ordered [OF inv1])
qed

lemma bump_ordered_step:
  assumes inv: "pool_inv s L" and req: "valid_request b a" and pos: "0 < b"
    and fit: "numBytesNeeded s b a \<le> bytesLeft s"
    and p: "p = sub64 (sub64 (data s) b) (alignmentOffset s b a)"
    and s': "s' = s\<lparr>data := p,
              bytesLeft := bytesLeft s - numBytesNeeded s b a,
              numAllocationsInArena :=
                (numAllocationsInArena s)[activeArenaId s :=
                   u32 (numAllocationsInArena s ! activeArenaId s + 1)]\<rparr>"
    and ord: "bump_ordered s L"
  shows "bump_ordered s' (p # L)"
proof -
  note b = bump_inv [OF inv req pos fit p s']
  from ord have dist: "distinct L"
    and above: "\<And>q. q \<in> set L \<Longrightarrow>
      arenaIdOf (arenaData s) (arenaSize s) q = activeArenaId s \<Longrightarrow> data s \<le> q"
    by (simp_all add: bump_ordered_def)
  have fresh: "p \<notin> set L"
  proof
    assume "p \<in> set L"
    from above [OF this b(5)] b(6) show False by simp
  qed
  have f: "arenaData s' = arenaData s" "arenaSize s' = arenaSize s"
    "activeArenaId s' = activeArenaId s" "data s' = p"
    by (simp_all add: s')
  show ?thesis
    unfolding bump_ordered_def f
  proof (intro conjI ballI impI)
    show "distinct (p # L)" using dist fresh by simp
  next
    fix q
    assume q: "q \<in> set (p # L)"
      and id: "arenaIdOf (arenaData s) (arenaSize s) q = activeArenaId s"
    show "p \<le> q"
    proof (cases "q = p")
      case True
      then show ?thesis by simp
    next
      case False
      with q have "q \<in> set L" by simp
      from above [OF this id] b(6) show ?thesis by simp
    qed
  qed
qed

lemma details_ordered:
  assumes "pool_inv s L" and "valid_request b a" and "0 < b" and "bump_ordered s L"
  shows "bump_ordered (snd (do_allocate_details s b a))
           (if fst (do_allocate_details s b a) = 0 then L
            else fst (do_allocate_details s b a) # L)"
  using assms
proof (induction s b a rule: do_allocate_details.induct)
  case (1 s bytes alignment)
  show ?case
  proof (cases "bytesLeft s < numBytesNeeded s bytes alignment")
    case False
    define p where "p = sub64 (sub64 (data s) bytes) (alignmentOffset s bytes alignment)"
    define s' where "s' = s\<lparr>data := p,
              bytesLeft := bytesLeft s - numBytesNeeded s bytes alignment,
              numAllocationsInArena :=
                (numAllocationsInArena s)[activeArenaId s :=
                   u32 (numAllocationsInArena s ! activeArenaId s + 1)]\<rparr>"
    have eq: "do_allocate_details s bytes alignment = (p, s')"
      using False by (subst do_allocate_details.simps) (simp add: Let_def p_def s'_def)
    from False have fit: "numBytesNeeded s bytes alignment \<le> bytesLeft s" by simp
    from bump_inv(4) [OF "1.prems"(1,2,3) fit p_def s'_def]
      bump_ordered_step [OF "1.prems"(1,2,3) fit p_def s'_def "1.prems"(4)]
    show ?thesis
      unfolding eq by simp
  next
    case True
    show ?thesis
    proof (cases "bytes \<le> arenaSize s \<and> fst (reserveNextArena s)")
      case False
      with True have "do_allocate_details s bytes alignment = (0, s)"
        by (subst do_allocate_details.simps) auto
      with "1.prems"(4) show ?thesis by simp
    next
      case c: True
      have eq: "do_allocate_details s bytes alignment =
          do_allocate_details (snd (reserveNextArena s)) bytes alignment"
        using True c by (subst do_allocate_details.simps) simp
      from c have ok: "fst (reserveNextArena s)" by simp
      have inv1: "pool_inv (snd (reserveNextArena s)) L"
        by (rule reserve_inv [OF "1.prems"(1) ok])
      have ord1: "bump_ordered (snd (reserveNextArena s)) L"
        by (rule reserve_ordered [OF "1.prems"(1) ok "1.prems"(4)])
      from "1.IH" [OF True c inv1 "1.prems"(2,3) ord1] show ?thesis
        unfolding eq .
    qed
  qed
qed

lemma allocate_ordered:
  assumes inv: "pool_inv s L" and req: "valid_request b a" and ord: "bump_ordered s L"
  shows "case do_allocate True s b a of
           (Inl e, s') \<Rightarrow> bump_ordered s' L
         | (Inr p, s') \<Rightarrow> if p = 0 then bump_ordered s' L else bump_ordered s' (p # L)"
proof (cases "b = 0")
  case True
  with ord show ?thesis by (simp add: do_allocate_def)
next
  case False
  then have pos: "0 < b" by simp
  obtain p s' where eq: "do_allocate_details s b a = (p, s')"
    by (cases "do_allocate_details s b a")
  from details_ordered [OF inv req pos ord] show ?thesis
    using False by (auto simp: do_allocate_def eq)
qed

lemma deallocate_active:
  "activeArenaId (snd (do_deallocate ee s p b a)) = activeArenaId s"
  by (auto simp: do_deallocate_def Let_def resetActiveArena_def releaseArena_def
      split: sum.splits)

lemma deallocate_data:
  assumes "activeArenaId s < length (numAllocationsInArena s)"
  shows "data (snd (do_deallocate ee s p b a)) = data s \<or>
         numAllocationsInArena (snd (do_deallocate ee s p b a)) ! activeArenaId s = 0"
  using assms
  by (auto simp: do_deallocate_def Let_def resetActiveArena_def releaseArena_def
      split: sum.splits)

lemma deallocate_ordered:
  assumes inv: "pool_inv s L" and live: "p \<in> set L" and ord: "bump_ordered s L"
  shows "bump_ordered (snd (do_deallocate True s p b a)) (remove1 p L)"
proof -
  define s2 where "s2 = snd (do_deallocate True s p b a)"
  note d = pool_invD [OF inv]
  have inv2: "pool_inv s2 (remove1 p L)"
    unfolding s2_def using deallocate_inv [OF inv live, of b a] by simp
  from ord have dist: "distinct (remove1 p L)" by (simp add: bump_ordered_def)
  have act: "activeArenaId s2 = activeArenaId s"
    unfolding s2_def by (rule deallocate_active)
  have geo: "arenaData s2 = arenaData s" "arenaSize s2 = arenaSize s"
    unfolding s2_def by (simp_all add: deallocate_geometry)
  have alen: "activeArenaId s < length (numAllocationsInArena s)" using d(3,4) by simp
  have "data s2 = data s \<or> numAllocationsInArena s2 ! activeArenaId s = 0"
    using deallocate_data [OF alen, of True p b a] by (simp add: s2_def)
  then have "bump_ordered s2 (remove1 p L)"
  proof (elim disjE)
    assume 1: "data s2 = data s"
    show ?thesis
      unfolding bump_ordered_def 1 act geo
    proof (intro conjI ballI impI)
      show "distinct (remove1 p L)" by (rule dist)
    next
      fix q
      assume "q \<in> set (remove1 p L)"
        and id: "arenaIdOf (arenaData s) (arenaSize s) q = activeArenaId s"
      then have "q \<in> set L" by (meson notin_set_remove1)
      with ord id show "data s \<le> q" by (simp add: bump_ordered_def)
    qed
  next
    assume "numAllocationsInArena s2 ! activeArenaId s = 0"
    then have "numAllocationsInArena s2 ! activeArenaId s2 = 0" by (simp add: act)
    then show ?thesis by (rule empty_active_ordered [OF inv2 dist])
  qed
  then show ?thesis by (simp add: s2_def)
qed

lemma init_ordered:
  assumes "wf_geometry n sz base"
  shows "bump_ordered (initializeArenas n sz base) []"
  by (simp add: bump_ordered_def)

lemma step_ordered:
  assumes "run_inv n sz base r" and "bump_ordered (the_pool r) (live r)"
    and "step r x = Some r'"
  shows "bump_ordered (the_pool r') (live r')"
proof (cases x)
  case (Allocate b a)
  from assms(1) have inv: "pool_inv (the_pool r) (live r)" by (simp add: run_inv_def)
  from assms(3) Allocate have req: "valid_request b a"
    by (auto split: if_splits)
  obtain res s' where eq: "do_allocate True (the_pool r) b a = (res, s')"
    by (cases "do_allocate True (the_pool r) b a")
  from allocate_ordered [OF inv req assms(2)] assms(3) show ?thesis
    by (auto simp: Allocate req eq split: sum.splits if_splits)
next
  case (Deallocate p b a)
  from assms(1) have inv: "pool_inv (the_pool r) (live r)" by (simp add: run_inv_def)
  from assms(3) Deallocate have live: "p \<in> set (live r)"
    by (auto split: if_splits)
  from deallocate_ordered [OF inv live assms(2), of b a] assms(3) show ?thesis
    by (auto simp: Deallocate live)
qed

subsection \<open>The statistics resource\<close>

lemma map_assign_keys: "fst ` set (map_assign k v m) = insert k (fst ` set m)"
proof (induction m)
  case Nil
  then show ?case by simp
next
  case (Cons e m)
  obtain k' v' where e: "e = (k', v')" by (cases e)
  from Cons show ?case
    by (cases "k < k'"; cases "k = k'") (simp_all add: e insert_commute)
qed

lemma map_erase_keys:
  assumes "x \<in> fst ` set m" and "x \<noteq> k"
  shows "x \<in> fst ` set (map_erase k m)"
  using assms(1)
proof (induction m)
  case Nil
  then show ?case by simp
next
  case (Cons e m)
  obtain k' v' where e: "e = (k', v')" by (cases e)
  show ?case
  proof (cases "k = k'")
    case True
    with Cons.prems assms(2) have "x \<in> fst ` set m" by (auto simp: e)
    with True show ?thesis by (simp add: e)
  next
    case False
    show ?thesis
    proof (cases "x = k'")
      case True
      with False show ?thesis by (simp add: e)
    next
      case ne: False
      with Cons.prems have "x \<in> fst ` set m" by (auto simp: e)
      then have "x \<in> fst ` set (map_erase k m)" by (rule Cons.IH)
      with False show ?thesis by (simp add: e)
    qed
  qed
qed

lemma stats_allocate_base:
  "fst (stats_do_allocate ee st b a) = fst (do_allocate ee (base_pool st) b a)"
  "base_pool (snd (stats_do_allocate ee st b a)) = snd (do_allocate ee (base_pool st) b a)"
  by (auto simp: stats_do_allocate_def Let_def split: prod.splits sum.splits)

lemma stats_allocate_keys:
  "stats_do_allocate ee st b a = (Inr p, st') \<Longrightarrow>
     fst ` set (addressToBytesMap st') = insert p (fst ` set (addressToBytesMap st))"
  "stats_do_allocate ee st b a = (Inl e, st') \<Longrightarrow> addressToBytesMap st' = addressToBytesMap st"
proof -
  assume "stats_do_allocate ee st b a = (Inr p, st')"
  then have "addressToBytesMap st' = map_assign p (u32 b) (addressToBytesMap st)"
    by (auto simp: stats_do_allocate_def Let_def split: prod.splits sum.splits)
  then show "fst ` set (addressToBytesMap st') = insert p (fst ` set (addressToBytesMap st))"
    by (simp only: map_assign_keys)
next
  assume "stats_do_allocate ee st b a = (Inl e, st')"
  then show "addressToBytesMap st' = addressToBytesMap st"
    by (auto simp: stats_do_allocate_def Let_def split: prod.splits sum.splits)
qed

lemma stats_deallocate_tracked:
  assumes "p \<in> fst ` set (addressToBytesMap st)"
  shows "fst (stats_do_deallocate True st p b a) = fst (do_deallocate True (base_pool st) p b a)"
    and "base_pool (snd (stats_do_deallocate True st p b a)) =
           snd (do_deallocate True (base_pool st) p b a)"
    and "addressToBytesMap (snd (stats_do_deallocate True st p b a)) =
           map_erase p (addressToBytesMap st)"
  using assms
  by (auto simp: stats_do_deallocate_def Let_def split: prod.splits)

lemma stats_step_inv:
  assumes inv: "stats_run_inv n sz base r" and st: "stats_step r x = Some r'"
  shows "stats_run_inv n sz base r'" and "step (base_run r) x = Some (base_run r')"
proof -
  from inv have ri: "run_inv n sz base (base_run r)"
    and ord: "bump_ordered (base_pool (the_pool r)) (live r)"
    and keys: "set (live r) \<subseteq> fst ` set (addressToBytesMap (the_pool r))"
    by (simp_all add: stats_run_inv_def)
  have base: "step (base_run r) x = Some (base_run r') \<and>
      set (live r') \<subseteq> fst ` set (addressToBytesMap (the_pool r'))"
  proof (cases x)
    case (Allocate b a)
    from st Allocate have req: "valid_request b a" by (auto split: if_splits)
    obtain res s' where eq: "stats_do_allocate True (the_pool r) b a = (res, s')"
      by (cases "stats_do_allocate True (the_pool r) b a")
    from stats_allocate_base [of True "the_pool r" b a]
    have b: "do_allocate True (base_pool (the_pool r)) b a = (res, base_pool s')"
      by (simp add: eq prod_eq_iff)
    show ?thesis
    proof (cases res)
      case (Inl e)
      with st have r': "r' = r\<lparr>the_pool := s'\<rparr>"
        by (simp add: Allocate req eq)
      from stats_allocate_keys(2) [OF eq [unfolded Inl]] keys show ?thesis
        by (simp add: r' Allocate req base_run_def b Inl)
    next
      case (Inr p)
      from stats_allocate_keys(1) [OF eq [unfolded Inr]] keys
      have k: "set (live r) \<subseteq> fst ` set (addressToBytesMap s')"
        "p \<in> fst ` set (addressToBytesMap s')" by auto
      show ?thesis
      proof (cases "p = 0")
        case True
        with st have r': "r' = r\<lparr>the_pool := s'\<rparr>"
          by (simp add: Allocate req eq Inr)
        from k show ?thesis
          by (simp add: r' Allocate req base_run_def b Inr True)
      next
        case False
        with st have r': "r' = r\<lparr>the_pool := s', live := p # live r,
            numAllocates := numAllocates r + 1\<rparr>"
          by (simp add: Allocate req eq Inr)
        from k show ?thesis
          by (simp add: r' Allocate req base_run_def b Inr False)
      qed
    qed
  next
    case (Deallocate p b a)
    from st Deallocate have live: "p \<in> set (live r)" by (auto split: if_splits)
    with keys have tracked: "p \<in> fst ` set (addressToBytesMap (the_pool r))" by blast
    note t = stats_deallocate_tracked [OF tracked, of b a]
    from st have r': "r' = r\<lparr>the_pool := snd (stats_do_deallocate True (the_pool r) p b a),
        live := remove1 p (live r), numDeallocates := numDeallocates r + 1\<rparr>"
      by (simp add: Deallocate live)
    from ord have dist: "distinct (live r)" by (simp add: bump_ordered_def)
    have "set (remove1 p (live r)) \<subseteq> fst ` set (map_erase p (addressToBytesMap (the_pool r)))"
    proof
      fix q assume q: "q \<in> set (remove1 p (live r))"
      with dist have "q \<noteq> p" by auto
      moreover from q keys have "q \<in> fst ` set (addressToBytesMap (the_pool r))"
        by (meson notin_set_remove1 subsetD)
      ultimately show "q \<in> fst ` set (map_erase p (addressToBytesMap (the_pool r)))"
        by (intro map_erase_keys)
    qed
    then show ?thesis
      by (simp add: r' Deallocate live base_run_def t)
  qed
  then have s: "step (base_run r) x = Some (base_run r')" by simp
  then show "step (base_run r) x = Some (base_run r')" .
  have ri': "run_inv n sz base (base_run r')"
    by (rule step_inv [OF ri s])
  have "bump_ordered (the_pool (base_run r')) (live (base_run r'))"
    by (rule step_ordered [OF ri _ s]) (simp add: base_run_def ord)
  then have "bump_ordered (base_pool (the_pool r')) (live r')"
    by (simp add: base_run_def)
  with ri' base show "stats_run_inv n sz base r'"
    by (simp add: stats_run_inv_def)
qed

lemma stats_run_inv_preserved:
  "stats_run r xs = Some r' \<Longrightarrow> stats_run_inv n sz base r \<Longrightarrow> stats_run_inv n sz base r'"
proof (induction xs arbitrary: r)
  case Nil
  then show ?case by simp
next
  case (Cons x xs)
  from Cons.prems(1) obtain r1 where s: "stats_step r x = Some r1"
    and rest: "stats_run r1 xs = Some r'"
    by (auto split: option.splits)
  from Cons.IH [OF rest stats_step_inv(1) [OF Cons.prems(2) s]] show ?case .
qed

lemma stats_start_inv:
  assumes "wf_geometry n sz base" and "StatisticsArenaResource True n sz base = Inr st"
  shows "stats_run_inv n sz base (stats_start st)"
proof -
  from assms(2) have st: "st = \<lparr>base_pool = initializeArenas n sz base, addressToBytesMap = [],
      maxBusyArenas = 0, maxNumberOfAllocations = 0\<rparr>"
    by (auto simp: StatisticsArenaResource_def split: if_splits)
  have "base_run (stats_start st) = start n sz base"
    by (simp add: base_run_def stats_start_def start_def st)
  with start_inv [OF assms(1)] show ?thesis
    by (simp add: stats_run_inv_def stats_start_def st bump_ordered_def)
qed

lemma stats_run_reaches_inv:
  assumes "wf_geometry n sz base" and "StatisticsArenaResource True n sz base = Inr st"
    and "stats_run (stats_start st) ops = Some r"
  shows "stats_run_inv n sz base r"
  by (rule stats_run_inv_preserved [OF assms(3) stats_start_inv [OF assms(1,2)]])

lemma stats_count:
  assumes "stats_run_inv n sz base r"
  shows "numDeallocates r \<le> numAllocates r"
    and "numberOfAllocations (base_pool (the_pool r)) = numAllocates r - numDeallocates r"
proof -
  from assms have ri: "run_inv n sz base (base_run r)" by (simp add: stats_run_inv_def)
  then have inv: "pool_inv (base_pool (the_pool r)) (live r)"
    and len: "length (live r) + numDeallocates r = numAllocates r"
    by (simp_all add: run_inv_def base_run_def)
  from len show "numDeallocates r \<le> numAllocates r" by simp
  from len show "numberOfAllocations (base_pool (the_pool r)) = numAllocates r - numDeallocates r"
    by (simp add: numberOfAllocations_live [OF inv])
qed

lemma stats_round_trip:
  assumes si: "stats_run_inv n sz base r" and req: "valid_request b a"
    and eq: "stats_do_allocate True (the_pool r) b a = (Inr p, u)" and nz: "p \<noteq> 0"
  shows "numberOfAllocations (base_pool u) = numberOfAllocations (base_pool (the_pool r)) + 1"
    and "fst (stats_do_deallocate True u p b a) = Inr ()"
    and "numberOfAllocations (base_pool (snd (stats_do_deallocate True u p b a))) =
           numberOfAllocations (base_pool (the_pool r))"
proof -
  from si have inv: "pool_inv (base_pool (the_pool r)) (live r)"
    by (simp add: stats_run_inv_def run_inv_def base_run_def)
  from stats_allocate_base [of True "the_pool r" b a]
  have b: "do_allocate True (base_pool (the_pool r)) b a = (Inr p, base_pool u)"
    by (simp add: eq prod_eq_iff)
  from allocate_inv [OF inv req] nz have inv': "pool_inv (base_pool u) (p # live r)"
    by (simp add: b)
  have "p \<in> set (p # live r)" by simp
  from deallocate_inv [OF inv' this, of b a]
  have ok: "fst (do_deallocate True (base_pool u) p b a) = Inr ()"
    and inv'': "pool_inv (snd (do_deallocate True (base_pool u) p b a)) (live r)"
    by simp_all
  from stats_allocate_keys(1) [OF eq] have tracked: "p \<in> fst ` set (addressToBytesMap u)"
    by simp
  note t = stats_deallocate_tracked [OF tracked, of b a]
  show "numberOfAllocations (base_pool u) = numberOfAllocations (base_pool (the_pool r)) + 1"
    by (simp add: numberOfAllocations_live [OF inv] numberOfAllocations_live [OF inv'])
  show "fst (stats_do_deallocate True u p b a) = Inr ()"
    by (simp add: t ok)
  show "numberOfAllocations (base_pool (snd (stats_do_deallocate True u p b a))) =
      numberOfAllocations (base_pool (the_pool r))"
    by (simp add: t numberOfAllocations_live [OF inv] numberOfAllocations_live [OF inv''])
qed

subsection \<open>The number of live allocations\<close>

lemma low0_eq:
  "low0 = \<lparr>numArenas = 2, arenaSize = 256, arenaData = 4294967040, data = 4294967296,
     bytesLeft = 256, activeArenaId = 0, freeListHead = 1, freeList = [1, 0],
     numAllocationsInArena = [0, 0]\<rparr>"
  by (simp add: low0_def initializeArenas_def details_eval upt_rec replicate_2)

lemma low0_null_deallocate:
  "do_deallocate True low0 0 0 16 =
     (Inr (), \<lparr>numArenas = 2, arenaSize = 256, arenaData = 4294967040, data = 4294967296,
        bytesLeft = 256, activeArenaId = 0, freeListHead = 1, freeList = [1, 0],
        numAllocationsInArena = [0, 4294967295]\<rparr>)"
  unfolding low0_eq by (simp add: dealloc_eval)

text \<open>
  C6, as stated: an allocate followed at once by the deallocate of the returned pointer
  leaves the number of live allocations as it was. In the pool of two arenas of 256
  bytes at the address 4294967040 a request of 0 bytes returns the null pointer and
  changes nothing; the deallocate of the null pointer computes the offset
  \<open>0 - 4294967040\<close>, which is 256 in \<^verbatim>\<open>SizeType\<close>, takes arena 1, throws nothing and
  wraps the counter of that arena: the number of live allocations goes from 0 to
  4294967295.
\<close>

theorem null_round_trip_changes_live_count:
  "wf_geometry 2 256 4294967040 \<and>
   do_allocate True low0 0 16 = (Inr 0, low0) \<and>
   numberOfAllocations low0 = 0 \<and>
   fst (do_deallocate True low0 0 0 16) = Inr () \<and>
   numberOfAllocations (snd (do_deallocate True low0 0 0 16)) = 4294967295"
proof -
  have "wf_geometry 2 256 4294967040" by (simp add: wf_geometry_def)
  moreover have "do_allocate True low0 0 16 = (Inr 0, low0)" by (simp add: do_allocate_def)
  moreover have "numberOfAllocations low0 = 0"
    unfolding low0_eq
    by (simp add: numberOfAllocations_def allocationsInArena_def u64_def upt_rec)
  moreover have "fst (do_deallocate True low0 0 0 16) = Inr ()"
    unfolding low0_null_deallocate by simp
  moreover have "numberOfAllocations (snd (do_deallocate True low0 0 0 16)) = 4294967295"
    unfolding low0_null_deallocate
    by (simp add: numberOfAllocations_def allocationsInArena_def u64_def upt_rec)
  ultimately show ?thesis by blast
qed

lemma stats0_base: "base_pool stats0 = wrap0"
  by (simp add: stats0_def wrap0_def)

lemma stats0_allocate: "stats_do_allocate True stats0 16 16 = (Inr 4336, stats0a)"
  by (simp add: stats0a_def prod_eq_iff stats_allocate_base(1) stats0_base wrap0_allocate)

lemma stats0a_base: "base_pool stats0a = wrap0a"
  by (simp add: stats0a_def stats_allocate_base(2) stats0_base wrap0_allocate)

lemma stats0a_tracked: "4336 \<in> fst ` set (addressToBytesMap stats0a)"
  using stats_allocate_keys(1) [OF stats0_allocate] by simp

lemma stats0_round_trip: "stats_do_deallocate True stats0a 4336 16 16 = (Inr (), stats0b)"
  by (simp add: stats0b_def prod_eq_iff stats_deallocate_tracked(1) [OF stats0a_tracked]
      stats0a_base wrap0_round_trip)

lemma stats0b_base: "base_pool stats0b = wrap0"
  by (simp add: stats0b_def stats_deallocate_tracked(2) [OF stats0a_tracked]
      stats0a_base wrap0_round_trip)

lemma stats_run_example:
  "stats_run (stats_start stats0) [Allocate 16 16, Deallocate 4336 16 16] = Some stats_trace_end"
  by (simp add: stats_start_def valid_request_16_16 stats0_allocate stats0_round_trip
      stats_trace_end_def)

text \<open>
  C6, amended. For the unsynchronized engine, the synchronized engine and the statistics
  resource, on a pool of well-formed geometry and after every sequence of calls within
  the contract (requests with a power-of-two alignment and size plus alignment within
  \<^verbatim>\<open>SizeType\<close>, deallocations of live addresses), \<open>numberOfAllocations\<close> is the
  number of allocate calls that returned storage minus the number of deallocate calls;
  and an allocate that returns storage, followed at once by the deallocate of the
  returned address, raises the count by one and brings it back to its value before the
  pair.
\<close>

theorem live_count_is_allocates_minus_deallocates:
  "(wf_geometry n sz base \<and> run (start n sz base) ops = Some r \<longrightarrow>
      numDeallocates r \<le> numAllocates r \<and>
      numberOfAllocations (the_pool r) = numAllocates r - numDeallocates r) \<and>
   (wf_geometry n sz base \<and> run (start n sz base) ops = Some r \<and> valid_request b a \<and>
    do_allocate True (the_pool r) b a = (Inr p, s') \<and> p \<noteq> 0 \<longrightarrow>
      numberOfAllocations s' = numberOfAllocations (the_pool r) + 1 \<and>
      fst (do_deallocate True s' p b a) = Inr () \<and>
      numberOfAllocations (snd (do_deallocate True s' p b a)) =
        numberOfAllocations (the_pool r)) \<and>
   (wf_geometry n sz base \<and> sync_run (sync_start n sz base) ops' = Some r' \<longrightarrow>
      numDeallocates r' \<le> numAllocates r' \<and>
      sync_numberOfAllocations (the_pool r') = numAllocates r' - numDeallocates r') \<and>
   (wf_geometry n sz base \<and> sync_run (sync_start n sz base) ops' = Some r' \<and>
    valid_request b a \<and> sync_do_allocate True (the_pool r') b a = (Inr p', t') \<and> p' \<noteq> 0 \<longrightarrow>
      sync_numberOfAllocations t' = sync_numberOfAllocations (the_pool r') + 1 \<and>
      fst (sync_do_deallocate True t' p' b a) = Inr () \<and>
      sync_numberOfAllocations (snd (sync_do_deallocate True t' p' b a)) =
        sync_numberOfAllocations (the_pool r')) \<and>
   (wf_geometry n sz base \<and> StatisticsArenaResource True n sz base = Inr st \<and>
    stats_run (stats_start st) ops'' = Some r'' \<longrightarrow>
      numDeallocates r'' \<le> numAllocates r'' \<and>
      numberOfAllocations (base_pool (the_pool r'')) = numAllocates r'' - numDeallocates r'') \<and>
   (wf_geometry n sz base \<and> StatisticsArenaResource True n sz base = Inr st \<and>
    stats_run (stats_start st) ops'' = Some r'' \<and> valid_request b a \<and>
    stats_do_allocate True (the_pool r'') b a = (Inr p'', u') \<and> p'' \<noteq> 0 \<longrightarrow>
      numberOfAllocations (base_pool u') = numberOfAllocations (base_pool (the_pool r'')) + 1 \<and>
      fst (stats_do_deallocate True u' p'' b a) = Inr () \<and>
      numberOfAllocations (base_pool (snd (stats_do_deallocate True u' p'' b a))) =
        numberOfAllocations (base_pool (the_pool r'')))"
proof (intro conjI impI)
  assume h: "wf_geometry n sz base \<and> run (start n sz base) ops = Some r"
  then have ri: "run_inv n sz base r" by (blast intro: run_reaches_inv)
  then have inv: "pool_inv (the_pool r) (live r)"
    and len: "length (live r) + numDeallocates r = numAllocates r"
    by (simp_all add: run_inv_def)
  from len show "numDeallocates r \<le> numAllocates r" by simp
  from len show "numberOfAllocations (the_pool r) = numAllocates r - numDeallocates r"
    by (simp add: numberOfAllocations_live [OF inv])
next
  assume h: "wf_geometry n sz base \<and> run (start n sz base) ops = Some r \<and> valid_request b a \<and>
    do_allocate True (the_pool r) b a = (Inr p, s') \<and> p \<noteq> 0"
  then have ri: "run_inv n sz base r" by (blast intro: run_reaches_inv)
  then have inv: "pool_inv (the_pool r) (live r)" by (simp add: run_inv_def)
  from h have req: "valid_request b a" and nz: "p \<noteq> 0"
    and eq: "do_allocate True (the_pool r) b a = (Inr p, s')" by simp_all
  from allocate_inv [OF inv req] nz have inv': "pool_inv s' (p # live r)"
    by (simp add: eq)
  have "p \<in> set (p # live r)" by simp
  from deallocate_inv [OF inv' this, of b a]
  have ok: "fst (do_deallocate True s' p b a) = Inr ()"
    and inv'': "pool_inv (snd (do_deallocate True s' p b a)) (live r)"
    by simp_all
  show "numberOfAllocations s' = numberOfAllocations (the_pool r) + 1"
    by (simp add: numberOfAllocations_live [OF inv] numberOfAllocations_live [OF inv'])
  show "fst (do_deallocate True s' p b a) = Inr ()" by (rule ok)
  show "numberOfAllocations (snd (do_deallocate True s' p b a)) = numberOfAllocations (the_pool r)"
    by (simp add: numberOfAllocations_live [OF inv] numberOfAllocations_live [OF inv''])
next
  assume h: "wf_geometry n sz base \<and> sync_run (sync_start n sz base) ops' = Some r'"
  then have ri: "sync_run_inv n sz base r'" by (blast intro: sync_run_reaches_inv)
  then have inv: "sync_inv (the_pool r') (live r')"
    and len: "length (live r') + numDeallocates r' = numAllocates r'"
    by (simp_all add: sync_run_inv_def)
  from len show "numDeallocates r' \<le> numAllocates r'" by simp
  from len show "sync_numberOfAllocations (the_pool r') = numAllocates r' - numDeallocates r'"
    by (simp add: sync_numberOfAllocations_live [OF inv])
next
  assume h: "wf_geometry n sz base \<and> sync_run (sync_start n sz base) ops' = Some r' \<and>
    valid_request b a \<and> sync_do_allocate True (the_pool r') b a = (Inr p', t') \<and> p' \<noteq> 0"
  then have ri: "sync_run_inv n sz base r'" by (blast intro: sync_run_reaches_inv)
  then have inv: "sync_inv (the_pool r') (live r')" by (simp add: sync_run_inv_def)
  from h have req: "valid_request b a" and nz: "p' \<noteq> 0"
    and eq: "sync_do_allocate True (the_pool r') b a = (Inr p', t')" by simp_all
  from sync_allocate_inv [OF inv req] nz have inv': "sync_inv t' (p' # live r')"
    by (simp add: eq)
  have "p' \<in> set (p' # live r')" by simp
  from sync_deallocate_inv [OF inv' this, of b a]
  have ok: "fst (sync_do_deallocate True t' p' b a) = Inr ()"
    and inv'': "sync_inv (snd (sync_do_deallocate True t' p' b a)) (live r')"
    by simp_all
  show "sync_numberOfAllocations t' = sync_numberOfAllocations (the_pool r') + 1"
    by (simp add: sync_numberOfAllocations_live [OF inv] sync_numberOfAllocations_live [OF inv'])
  show "fst (sync_do_deallocate True t' p' b a) = Inr ()" by (rule ok)
  show "sync_numberOfAllocations (snd (sync_do_deallocate True t' p' b a)) =
      sync_numberOfAllocations (the_pool r')"
    by (simp add: sync_numberOfAllocations_live [OF inv] sync_numberOfAllocations_live [OF inv''])
next
  assume h: "wf_geometry n sz base \<and> StatisticsArenaResource True n sz base = Inr st \<and>
    stats_run (stats_start st) ops'' = Some r''"
  then have si: "stats_run_inv n sz base r''" by (blast intro: stats_run_reaches_inv)
  from stats_count [OF si] show "numDeallocates r'' \<le> numAllocates r''"
    and "numberOfAllocations (base_pool (the_pool r'')) = numAllocates r'' - numDeallocates r''"
    by simp_all
next
  assume h: "wf_geometry n sz base \<and> StatisticsArenaResource True n sz base = Inr st \<and>
    stats_run (stats_start st) ops'' = Some r'' \<and> valid_request b a \<and>
    stats_do_allocate True (the_pool r'') b a = (Inr p'', u') \<and> p'' \<noteq> 0"
  then have si: "stats_run_inv n sz base r''" by (blast intro: stats_run_reaches_inv)
  from h have req: "valid_request b a" and nz: "p'' \<noteq> 0"
    and eq: "stats_do_allocate True (the_pool r'') b a = (Inr p'', u')" by simp_all
  note t = stats_round_trip [OF si req eq nz]
  show "numberOfAllocations (base_pool u') = numberOfAllocations (base_pool (the_pool r'')) + 1"
    by (rule t(1))
  show "fst (stats_do_deallocate True u' p'' b a) = Inr ()" by (rule t(2))
  show "numberOfAllocations (base_pool (snd (stats_do_deallocate True u' p'' b a))) =
      numberOfAllocations (base_pool (the_pool r''))"
    by (rule t(3))
qed

text \<open>The statement at the two-arena pools, for one allocation and its deallocation.\<close>

theorem live_count_is_allocates_minus_deallocates_witness:
  "wf_geometry 2 256 4096 \<and>
   run (start 2 256 4096) [Allocate 16 16, Deallocate 4336 16 16] = Some trace_end \<and>
   sync_run (sync_start 2 256 4096) [Allocate 16 16, Deallocate 4096 16 16] = Some sync_trace_end \<and>
   StatisticsArenaResource True 2 256 4096 = Inr stats0 \<and>
   stats_run (stats_start stats0) [Allocate 16 16, Deallocate 4336 16 16] = Some stats_trace_end \<and>
   valid_request 16 16 \<and>
   numAllocates trace_end = 1 \<and> numDeallocates trace_end = 1 \<and>
   numberOfAllocations (the_pool trace_end) = 0 \<and>
   fst (do_allocate True (the_pool trace_end) 16 16) = Inr 4336 \<and>
   numberOfAllocations (snd (do_allocate True (the_pool trace_end) 16 16)) = 1 \<and>
   fst (do_deallocate True (snd (do_allocate True (the_pool trace_end) 16 16)) 4336 16 16) = Inr () \<and>
   numberOfAllocations
     (snd (do_deallocate True (snd (do_allocate True (the_pool trace_end) 16 16)) 4336 16 16)) = 0 \<and>
   numAllocates sync_trace_end = 1 \<and> numDeallocates sync_trace_end = 1 \<and>
   sync_numberOfAllocations (the_pool sync_trace_end) = 0 \<and>
   fst (sync_do_allocate True (the_pool sync_trace_end) 16 16) = Inr 4096 \<and>
   sync_numberOfAllocations (snd (sync_do_allocate True (the_pool sync_trace_end) 16 16)) = 1 \<and>
   fst (sync_do_deallocate True (snd (sync_do_allocate True (the_pool sync_trace_end) 16 16))
     4096 16 16) = Inr () \<and>
   sync_numberOfAllocations
     (snd (sync_do_deallocate True (snd (sync_do_allocate True (the_pool sync_trace_end) 16 16))
       4096 16 16)) = 0 \<and>
   numAllocates stats_trace_end = 1 \<and> numDeallocates stats_trace_end = 1 \<and>
   numberOfAllocations (base_pool (the_pool stats_trace_end)) = 0 \<and>
   fst (stats_do_allocate True (the_pool stats_trace_end) 16 16) = Inr 4336 \<and>
   numberOfAllocations
     (base_pool (snd (stats_do_allocate True (the_pool stats_trace_end) 16 16))) = 1 \<and>
   fst (stats_do_deallocate True (snd (stats_do_allocate True (the_pool stats_trace_end) 16 16))
     4336 16 16) = Inr () \<and>
   numberOfAllocations
     (base_pool (snd (stats_do_deallocate True
        (snd (stats_do_allocate True (the_pool stats_trace_end) 16 16)) 4336 16 16))) = 0"
proof -
  let ?s' = "snd (do_allocate True (the_pool trace_end) 16 16)"
  let ?t' = "snd (sync_do_allocate True (the_pool sync_trace_end) 16 16)"
  let ?u' = "snd (stats_do_allocate True (the_pool stats_trace_end) 16 16)"
  have a': "fst (do_allocate True (the_pool trace_end) 16 16) = Inr 4336"
    by (simp add: trace_end_def wrap0_allocate)
  have b': "fst (sync_do_allocate True (the_pool sync_trace_end) 16 16) = Inr 4096"
    by (simp add: sync_trace_end_def sync0_allocate)
  have e': "fst (stats_do_allocate True (the_pool stats_trace_end) 16 16) = Inr 4336"
    by (simp add: stats_trace_end_def stats_allocate_base(1) stats0b_base wrap0_allocate)
  have a: "do_allocate True (the_pool trace_end) 16 16 = (Inr 4336, ?s')"
    using a' by (simp add: prod_eq_iff)
  have b: "sync_do_allocate True (the_pool sync_trace_end) 16 16 = (Inr 4096, ?t')"
    using b' by (simp add: prod_eq_iff)
  have e: "stats_do_allocate True (the_pool stats_trace_end) 16 16 = (Inr 4336, ?u')"
    using e' by (simp add: prod_eq_iff)
  have c: "numAllocates trace_end = 1" "numDeallocates trace_end = 1"
    "numAllocates sync_trace_end = 1" "numDeallocates sync_trace_end = 1"
    "numAllocates stats_trace_end = 1" "numDeallocates stats_trace_end = 1"
    by (simp_all add: trace_end_def sync_trace_end_def stats_trace_end_def)
  note t = live_count_is_allocates_minus_deallocates
    [of 2 256 4096 "[Allocate 16 16, Deallocate 4336 16 16]" trace_end
      16 16 4336 ?s' "[Allocate 16 16, Deallocate 4096 16 16]" sync_trace_end 4096 ?t'
      stats0 "[Allocate 16 16, Deallocate 4336 16 16]" stats_trace_end 4336 ?u']
  have n0: "numberOfAllocations (the_pool trace_end) = 0"
    using t wf_geometry_example run_example c by simp
  have m0: "sync_numberOfAllocations (the_pool sync_trace_end) = 0"
    using t wf_geometry_example sync_run_example c by simp
  have k0: "numberOfAllocations (base_pool (the_pool stats_trace_end)) = 0"
    using t wf_geometry_example stats0_constructed stats_run_example c by simp
  have u: "numberOfAllocations ?s' = 1 \<and>
      fst (do_deallocate True ?s' 4336 16 16) = Inr () \<and>
      numberOfAllocations (snd (do_deallocate True ?s' 4336 16 16)) = 0"
    using t wf_geometry_example run_example valid_request_16_16 a n0 by simp
  have v: "sync_numberOfAllocations ?t' = 1 \<and>
      fst (sync_do_deallocate True ?t' 4096 16 16) = Inr () \<and>
      sync_numberOfAllocations (snd (sync_do_deallocate True ?t' 4096 16 16)) = 0"
    using t wf_geometry_example sync_run_example valid_request_16_16 b m0 by simp
  have w: "numberOfAllocations (base_pool ?u') = 1 \<and>
      fst (stats_do_deallocate True ?u' 4336 16 16) = Inr () \<and>
      numberOfAllocations (base_pool (snd (stats_do_deallocate True ?u' 4336 16 16))) = 0"
    using t wf_geometry_example stats0_constructed stats_run_example valid_request_16_16 e k0
    by simp
  show ?thesis
    using wf_geometry_example run_example sync_run_example stats0_constructed stats_run_example
      valid_request_16_16 c n0 m0 k0 u v w a' b' e'
    by blast
qed


section \<open>Requests aligned within the storage\<close>

text \<open>
  The arena boundaries are multiples of every alignment that divides the address of the
  storage and the arena size. For such an alignment a request of at most one arena fits
  an untouched arena, so the retry of \<^verbatim>\<open>do_allocate_details\<close> happens once.
\<close>

lemma fresh_arena_fits:
  assumes geo: "wf_geometry (numArenas s) (arenaSize s) (arenaData s)"
    and act: "activeArenaId s < numArenas s"
    and fresh: "bytesLeft s = arenaSize s"
      "data s = arenaData s + arenaSize s * activeArenaId s + arenaSize s"
    and req: "valid_request b a" and le: "b \<le> arenaSize s"
    and al: "a dvd arenaData s" "a dvd arenaSize s"
  shows "numBytesNeeded s b a \<le> bytesLeft s"
proof -
  note g = geometry_bounds [OF geo]
  define lo where "lo = arenaData s + arenaSize s * activeArenaId s"
  have top: "arenaSize s * activeArenaId s + arenaSize s \<le> numArenas s * arenaSize s"
  proof -
    have "arenaSize s * activeArenaId s + arenaSize s = (activeArenaId s + 1) * arenaSize s"
      by (simp add: mult.commute)
    also have "\<dots> \<le> numArenas s * arenaSize s"
      using act by (intro mult_le_mono1) simp
    finally show ?thesis .
  qed
  have d: "data s = lo + arenaSize s" by (simp add: fresh(2) lo_def)
  have data64: "data s < 2 ^ 64"
    unfolding fresh(2) using top g(5) by linarith
  have b_le: "b \<le> data s" using le d by linarith
  have sub: "sub64 (data s) b = data s - b"
    by (rule sub64_exact [OF b_le data64])
  have lo_dvd: "a dvd lo"
    unfolding lo_def using al by (intro dvd_add dvd_mult2)
  have lo_le: "lo \<le> data s - b" using le d by linarith
  have "lo \<le> (data s - b) - (data s - b) mod a"
  proof -
    from lo_dvd obtain q where q: "lo = a * q" by (rule dvdE)
    from req obtain k where "0 < a" by (rule valid_requestD)
    then have "q \<le> (data s - b) div a"
      using lo_le unfolding q by (simp add: less_eq_div_iff_mult_less_eq mult.commute)
    then have "a * q \<le> a * ((data s - b) div a)" by (rule mult_le_mono2)
    then show ?thesis
      by (simp add: q minus_mod_eq_mult_div)
  qed
  then have "(data s - b) mod a \<le> data s - b - lo"
    using lo_le mod_less_eq_dividend [of "data s - b" a] by linarith
  then have "b + (data s - b) mod a \<le> arenaSize s"
    using d le by linarith
  then show ?thesis
    by (simp add: numBytesNeeded_eq [OF req] sub fresh(1))
qed

text \<open>
  When the alignment divides the storage address and the arena size, a request of at most
  one arena that does not fit the active arena pops exactly one free arena and is placed
  there.
\<close>

lemma aligned_retry_succeeds:
  assumes inv: "pool_inv s L" and req: "valid_request b a" and pos: "0 < b"
    and le: "b \<le> arenaSize s" and al: "a dvd arenaData s" "a dvd arenaSize s"
    and nofit: "bytesLeft s < numBytesNeeded s b a" and free: "freeListHead s \<noteq> 0"
  shows "fst (do_allocate_details s b a) \<noteq> 0"
    and "freeListHead (snd (do_allocate_details s b a)) = freeListHead s - 1"
    and "activeArenaId (snd (do_allocate_details s b a)) = freeList s ! (freeListHead s - 1)"
proof -
  define s1 where "s1 = snd (reserveNextArena s)"
  have ok: "fst (reserveNextArena s)"
    using free by (simp add: reserveNextArena_some)
  have inv1: "pool_inv s1 L"
    unfolding s1_def by (rule reserve_inv [OF inv ok])
  note d1 = pool_invD [OF inv1]
  have geo: "numArenas s1 = numArenas s" "arenaSize s1 = arenaSize s" "arenaData s1 = arenaData s"
    by (simp_all add: s1_def reserve_geometry)
  have bl: "bytesLeft s1 = arenaSize s1"
    by (simp add: s1_def reserveNextArena_some [OF free])
  have fit: "numBytesNeeded s1 b a \<le> bytesLeft s1"
    using d1(1) d1(4) bl d1(7) req le al unfolding bl
    by (intro fresh_arena_fits [of s1 b a, unfolded bl]) (simp_all add: geo)
  have eq: "do_allocate_details s b a = do_allocate_details s1 b a"
    using nofit le ok by (subst do_allocate_details.simps) (simp add: s1_def)
  define p where "p = sub64 (sub64 (data s1) b) (alignmentOffset s1 b a)"
  define s' where "s' = s1\<lparr>data := p,
              bytesLeft := bytesLeft s1 - numBytesNeeded s1 b a,
              numAllocationsInArena :=
                (numAllocationsInArena s1)[activeArenaId s1 :=
                   u32 (numAllocationsInArena s1 ! activeArenaId s1 + 1)]\<rparr>"
  have eq1: "do_allocate_details s1 b a = (p, s')"
    using fit by (subst do_allocate_details.simps) (simp add: Let_def p_def s'_def)
  from bump_inv(4) [OF inv1 req pos fit p_def s'_def]
  show "fst (do_allocate_details s b a) \<noteq> 0"
    unfolding eq eq1 by simp
  show "freeListHead (snd (do_allocate_details s b a)) = freeListHead s - 1"
    unfolding eq eq1 by (simp add: s'_def s1_def reserveNextArena_some [OF free])
  show "activeArenaId (snd (do_allocate_details s b a)) = freeList s ! (freeListHead s - 1)"
    unfolding eq eq1 by (simp add: s'_def s1_def reserveNextArena_some [OF free])
qed

text \<open>
  Under the same condition on the alignment a failing allocate leaves the pool as it was.
\<close>

lemma aligned_failure_leaves_pool:
  assumes inv: "pool_inv s L" and req: "valid_request b a"
    and al: "a dvd arenaData s" "a dvd arenaSize s"
    and fail: "do_allocate ee s b a = (Inl e, s')"
  shows "s' = s"
proof -
  from fail have pos: "0 < b"
    by (auto simp: do_allocate_def split: if_splits)
  from fail have null: "fst (do_allocate_details s b a) = 0" and s': "s' = snd (do_allocate_details s b a)"
    by (auto simp: do_allocate_def split: if_splits prod.splits)
  have nofit: "bytesLeft s < numBytesNeeded s b a"
  proof (rule ccontr)
    assume "\<not> bytesLeft s < numBytesNeeded s b a"
    then have fit: "numBytesNeeded s b a \<le> bytesLeft s" by simp
    define p where "p = sub64 (sub64 (data s) b) (alignmentOffset s b a)"
    define t where "t = s\<lparr>data := p,
              bytesLeft := bytesLeft s - numBytesNeeded s b a,
              numAllocationsInArena :=
                (numAllocationsInArena s)[activeArenaId s :=
                   u32 (numAllocationsInArena s ! activeArenaId s + 1)]\<rparr>"
    have "do_allocate_details s b a = (p, t)"
      using fit by (subst do_allocate_details.simps) (simp add: Let_def p_def t_def)
    with bump_inv(4) [OF inv req pos fit p_def t_def] null show False by simp
  qed
  show ?thesis
  proof (cases "b \<le> arenaSize s \<and> freeListHead s \<noteq> 0")
    case True
    from aligned_retry_succeeds(1) [OF inv req pos _ al nofit] True null show ?thesis by simp
  next
    case False
    then have "\<not> (b \<le> arenaSize s \<and> fst (reserveNextArena s))"
      by (auto simp: reserveNextArena_none)
    with nofit have "do_allocate_details s b a = (0, s)"
      by (subst do_allocate_details.simps) auto
    then show ?thesis by (simp add: s')
  qed
qed

text \<open>
  In the synchronized engine a failing allocate always leaves the pool as it was: the
  retry in a fresh arena cannot fail.
\<close>

lemma sync_failure_leaves_pool:
  assumes inv: "sync_inv s L" and req: "valid_request b a"
    and fail: "sync_do_allocate ee s b a = (Inl e, s')"
  shows "s' = s"
proof -
  note d = sync_invD [OF inv]
  note g = geometry_bounds [OF d(1)]
  from fail have pos: "0 < b"
    by (auto simp: sync_do_allocate_def split: if_splits)
  from req have b32: "b < 2 ^ 32"
    by (elim valid_requestD) linarith
  define m where "m = (b + 15) div 16 * 16"
  note r = bins_rounding [OF b32 pos, folded m_def]
  from fail pos have le: "m \<le> s_arenaSize s"
    unfolding sync_do_allocate_def Let_def r(1) by (auto split: if_splits)
  from fail pos le have null: "fst (sync_do_allocate_details s m) = 0"
    and s': "s' = snd (sync_do_allocate_details s m)"
    unfolding sync_do_allocate_def Let_def r(1) by (auto split: if_splits prod.splits)
  have "(2::nat) ^ 32 + 2 ^ 32 < 2 ^ 64" by simp
  then have "s_bytesReserved s + m < 2 ^ 64"
    using d(7) le g(6) by linarith
  then have nr: "u64 (s_bytesReserved s + m) = s_bytesReserved s + m"
    by (rule u64_id)
  have nofit: "s_arenaSize s < s_bytesReserved s + m"
  proof (rule ccontr)
    assume "\<not> s_arenaSize s < s_bytesReserved s + m"
    then have fit: "s_bytesReserved s + m \<le> s_arenaSize s" by simp
    define t where "t = s\<lparr>s_bytesReserved := s_bytesReserved s + m,
              s_data := u64 (s_data s + m),
              s_numAllocationsInArena :=
                (s_numAllocationsInArena s)[s_activeArenaId s :=
                   u32 (s_numAllocationsInArena s ! s_activeArenaId s + 1)]\<rparr>"
    have "sync_do_allocate_details s m = (s_data s, t)"
      using fit by (subst sync_do_allocate_details.simps) (simp add: Let_def t_def nr)
    with sync_bump_inv(3) [OF inv r(2,3) fit t_def] null show False by simp
  qed
  show ?thesis
  proof (cases "fst (sync_reserveNextArena s)")
    case False
    with nofit have "sync_do_allocate_details s m = (0, s)"
      by (subst sync_do_allocate_details.simps) (simp add: Let_def nr)
    then show ?thesis by (simp add: s')
  next
    case True
    define s1 where "s1 = snd (sync_reserveNextArena s)"
    have inv1: "sync_inv s1 L" and z: "s_bytesReserved s1 = 0"
      unfolding s1_def by (rule sync_reserve_inv [OF inv True])+
    have sz: "s_arenaSize s1 = s_arenaSize s"
      by (simp add: s1_def sync_reserve_geometry)
    have eq: "sync_do_allocate_details s m = sync_do_allocate_details s1 m"
      using nofit True by (subst sync_do_allocate_details.simps) (simp add: Let_def nr s1_def)
    have fit: "s_bytesReserved s1 + m \<le> s_arenaSize s1"
      using le by (simp add: z sz)
    have "m < 2 ^ 64" using le g(6) \<open>(2::nat) ^ 32 + 2 ^ 32 < 2 ^ 64\<close> by linarith
    then have nr1: "u64 (s_bytesReserved s1 + m) = s_bytesReserved s1 + m"
      by (simp add: z u64_id)
    define t where "t = s1\<lparr>s_bytesReserved := s_bytesReserved s1 + m,
              s_data := u64 (s_data s1 + m),
              s_numAllocationsInArena :=
                (s_numAllocationsInArena s1)[s_activeArenaId s1 :=
                   u32 (s_numAllocationsInArena s1 ! s_activeArenaId s1 + 1)]\<rparr>"
    have "sync_do_allocate_details s1 m = (s_data s1, t)"
      using fit by (subst sync_do_allocate_details.simps) (simp add: Let_def t_def nr1)
    with sync_bump_inv(3) [OF inv1 r(2,3) fit t_def] null show ?thesis
      by (simp add: eq)
  qed
qed

section \<open>Busy arenas with no live allocation\<close>

lemma tidyD:
  assumes "tidy s"
  shows "\<And>i. i < numArenas s \<Longrightarrow> i \<noteq> activeArenaId s \<Longrightarrow>
           i \<notin> set (take (freeListHead s) (freeList s)) \<Longrightarrow> numAllocationsInArena s ! i \<noteq> 0"
    and "numAllocationsInArena s ! activeArenaId s = 0 \<Longrightarrow> bytesLeft s = arenaSize s"
  using assms unfolding tidy_def by blast+

lemma bump_tidy:
  assumes inv: "pool_inv s L" and t: "tidy s" and room: "0 < bytesLeft s"
    and s': "s' = s\<lparr>data := p,
              bytesLeft := bl,
              numAllocationsInArena :=
                (numAllocationsInArena s)[activeArenaId s :=
                   u32 (numAllocationsInArena s ! activeArenaId s + 1)]\<rparr>"
  shows "tidy s'"
proof -
  note d = pool_invD [OF inv]
  note g = geometry_bounds [OF d(1)]
  define c where "c = numAllocationsInArena s ! activeArenaId s"
  have "c + bytesLeft s \<le> arenaSize s" using d(13) by (simp add: c_def)
  then have "c + 1 < 2 ^ 32" using g(6) room by linarith
  then have c1: "u32 (c + 1) = c + 1" by (rule u32_id)
  have alen: "activeArenaId s < length (numAllocationsInArena s)" using d(3,4) by simp
  have act: "numAllocationsInArena s' ! activeArenaId s' \<noteq> 0"
    using alen c1 by (simp add: s' c_def [symmetric])
  have other: "numAllocationsInArena s' ! i = numAllocationsInArena s ! i"
    if "i \<noteq> activeArenaId s" for i
    using that by (simp add: s')
  show ?thesis
    unfolding tidy_def
  proof (intro conjI allI impI)
    fix i
    assume "i < numArenas s'"
      and "i \<noteq> activeArenaId s' \<and> i \<notin> set (take (freeListHead s') (freeList s'))"
    then have "i < numArenas s" "i \<noteq> activeArenaId s"
      "i \<notin> set (take (freeListHead s) (freeList s))"
      by (simp_all add: s')
    from tidyD(1) [OF t this] other [OF this(2)]
    show "numAllocationsInArena s' ! i \<noteq> 0" by simp
  next
    assume "numAllocationsInArena s' ! activeArenaId s' = 0"
    with act show "bytesLeft s' = arenaSize s'" by simp
  qed
qed

lemma reserve_tidy:
  assumes inv: "pool_inv s L" and t: "tidy s"
    and busy: "numAllocationsInArena s ! activeArenaId s \<noteq> 0"
    and free: "freeListHead s \<noteq> 0"
  shows "tidy (snd (reserveNextArena s))"
proof -
  note d = pool_invD [OF inv]
  define h where "h = freeListHead s - 1"
  from free have hd: "freeListHead s = Suc h" by (simp add: h_def)
  have hlen: "h < length (freeList s)" using d(2,5) hd by simp
  have tk: "take (freeListHead s) (freeList s) = take h (freeList s) @ [freeList s ! h]"
    unfolding hd by (rule take_Suc_conv_app_nth [OF hlen])
  show ?thesis
    unfolding tidy_def reserveNextArena_some [OF free] h_def [symmetric]
  proof (simp, intro allI impI)
    fix i
    assume i: "i < numArenas s"
      and "i \<noteq> freeList s ! h \<and> i \<notin> set (take h (freeList s))"
    then have nf: "i \<notin> set (take (freeListHead s) (freeList s))"
      by (simp add: tk)
    show "0 < numAllocationsInArena s ! i"
    proof (cases "i = activeArenaId s")
      case True
      with busy show ?thesis by simp
    next
      case False
      from tidyD(1) [OF t i False nf] show ?thesis by simp
    qed
  qed
qed

lemma details_tidy:
  assumes inv: "pool_inv s L" and t: "tidy s" and req: "valid_request b a" and pos: "0 < b"
    and al: "a dvd arenaData s" "a dvd arenaSize s"
  shows "tidy (snd (do_allocate_details s b a))"
proof (cases "bytesLeft s < numBytesNeeded s b a")
  case False
  have "do_allocate_details s b a =
      (sub64 (sub64 (data s) b) (alignmentOffset s b a),
       s\<lparr>data := sub64 (sub64 (data s) b) (alignmentOffset s b a),
         bytesLeft := bytesLeft s - numBytesNeeded s b a,
         numAllocationsInArena :=
           (numAllocationsInArena s)[activeArenaId s :=
              u32 (numAllocationsInArena s ! activeArenaId s + 1)]\<rparr>)"
    using False by (subst do_allocate_details.simps) (simp add: Let_def)
  moreover have "0 < bytesLeft s"
    using False pos by (simp add: numBytesNeeded_eq [OF req])
  ultimately show ?thesis
    using bump_tidy [OF inv t _ refl] by simp
next
  case nofit: True
  show ?thesis
  proof (cases "b \<le> arenaSize s \<and> freeListHead s \<noteq> 0")
    case False
    then have "\<not> (b \<le> arenaSize s \<and> fst (reserveNextArena s))"
      by (auto simp: reserveNextArena_none)
    with nofit have "do_allocate_details s b a = (0, s)"
      by (subst do_allocate_details.simps) auto
    with t show ?thesis by simp
  next
    case True
    then have le: "b \<le> arenaSize s" and free: "freeListHead s \<noteq> 0" by simp_all
    note d = pool_invD [OF inv]
    have busy: "numAllocationsInArena s ! activeArenaId s \<noteq> 0"
    proof
      assume "numAllocationsInArena s ! activeArenaId s = 0"
      from tidyD(2) [OF t this] have fresh: "bytesLeft s = arenaSize s" .
      from d(7) have "data s = arenaData s + arenaSize s * activeArenaId s + arenaSize s"
        by (simp add: fresh)
      from fresh_arena_fits [OF d(1) d(4) fresh this req le al] nofit show False by simp
    qed
    define s1 where "s1 = snd (reserveNextArena s)"
    have ok: "fst (reserveNextArena s)"
      using free by (simp add: reserveNextArena_some)
    have inv1: "pool_inv s1 L"
      unfolding s1_def by (rule reserve_inv [OF inv ok])
    have t1: "tidy s1"
      unfolding s1_def by (rule reserve_tidy [OF inv t busy free])
    note d1 = pool_invD [OF inv1]
    have geo: "numArenas s1 = numArenas s" "arenaSize s1 = arenaSize s" "arenaData s1 = arenaData s"
      by (simp_all add: s1_def reserve_geometry)
    have bl: "bytesLeft s1 = arenaSize s1"
      by (simp add: s1_def reserveNextArena_some [OF free])
    have fit: "numBytesNeeded s1 b a \<le> bytesLeft s1"
      using d1(1) d1(4) bl d1(7) req le al unfolding bl
      by (intro fresh_arena_fits [of s1 b a, unfolded bl]) (simp_all add: geo)
    have eq: "do_allocate_details s b a = do_allocate_details s1 b a"
      using nofit le ok by (subst do_allocate_details.simps) (simp add: s1_def)
    have eq1: "do_allocate_details s1 b a =
      (sub64 (sub64 (data s1) b) (alignmentOffset s1 b a),
       s1\<lparr>data := sub64 (sub64 (data s1) b) (alignmentOffset s1 b a),
         bytesLeft := bytesLeft s1 - numBytesNeeded s1 b a,
         numAllocationsInArena :=
           (numAllocationsInArena s1)[activeArenaId s1 :=
              u32 (numAllocationsInArena s1 ! activeArenaId s1 + 1)]\<rparr>)"
      using fit by (subst do_allocate_details.simps) (simp add: Let_def)
    have "0 < bytesLeft s1"
      using d1(1) by (simp add: bl wf_geometry_def)
    from bump_tidy [OF inv1 t1 this refl] show ?thesis
      unfolding eq eq1 by simp
  qed
qed

lemma allocate_tidy:
  assumes inv: "pool_inv s L" and t: "tidy s" and req: "valid_request b a"
    and al: "a dvd arenaData s" "a dvd arenaSize s"
  shows "tidy (snd (do_allocate ee s b a))"
proof (cases "b = 0")
  case True
  with t show ?thesis by (simp add: do_allocate_def)
next
  case False
  then have pos: "0 < b" by simp
  from details_tidy [OF inv t req pos al] False show ?thesis
    by (cases "do_allocate_details s b a") (auto simp: do_allocate_def)
qed

lemma deallocate_tidy:
  assumes inv: "pool_inv s L" and t: "tidy s" and live: "p \<in> set L"
  shows "tidy (snd (do_deallocate True s p b a))"
proof -
  note d = pool_invD [OF inv]
  note g = geometry_bounds [OF d(1)]
  define i where "i = arenaIdOf (arenaData s) (arenaSize s) p"
  define c where "c = numAllocationsInArena s ! i"
  define cs where "cs = (numAllocationsInArena s)[i := c - 1]"
  from d(12) live have st: "in_storage (numArenas s) (arenaSize s) (arenaData s) p" by blast
  have iN: "i < numArenas s"
    unfolding i_def by (rule arenaIdOf_in_storage [OF d(1) st])
  have ilen: "i < length (numAllocationsInArena s)" using iN d(3) by simp
  have c_eq: "c = arena_count (arenaData s) (arenaSize s) L i"
    using d(11) iN by (simp add: c_def)
  have c_pos: "0 < c"
    unfolding c_eq i_def by (rule arena_count_pos [OF live])
  have "c \<le> arenaSize s" using d(14) iN by (simp add: c_def)
  then have "c < 2 ^ 32" using g(6) by linarith
  then have "sub32 c 1 = c - 1"
    using c_pos by (intro sub32_exact) simp_all
  then have dec: "sub32 c (Suc 0) = c - Suc 0" by simp
  have gen: "do_deallocate True s p b a =
      (let s1 = s\<lparr>numAllocationsInArena := cs\<rparr>
       in if c - 1 = 0 then
            (if i = activeArenaId s then (Inr (), resetActiveArena s1)
             else (case releaseArena s1 i of Inl e \<Rightarrow> (Inl e, s1) | Inr s2 \<Rightarrow> (Inr (), s2)))
          else (Inr (), s1))"
    using g(2) iN
    by (simp add: do_deallocate_def Let_def i_def [symmetric] c_def [symmetric] dec cs_def)
  have csi: "cs ! i = c - 1" using ilen by (simp add: cs_def)
  have cso: "cs ! j = numAllocationsInArena s ! j" if "j \<noteq> i" for j
    using that by (simp add: cs_def)
  show ?thesis
  proof (cases "c - 1 = 0")
    case False
    then have eq: "do_deallocate True s p b a = (Inr (), s\<lparr>numAllocationsInArena := cs\<rparr>)"
      by (simp add: gen)
    show ?thesis
      unfolding eq tidy_def
    proof (simp, intro conjI allI impI)
      fix j
      assume j: "j < numArenas s"
        and "j \<noteq> activeArenaId s \<and> j \<notin> set (take (freeListHead s) (freeList s))"
      then have "numAllocationsInArena s ! j \<noteq> 0"
        using tidyD(1) [OF t] by blast
      then show "0 < cs ! j"
        using False csi cso [of j] by (cases "j = i") simp_all
    next
      assume z: "cs ! activeArenaId s = 0"
      with False csi have "activeArenaId s \<noteq> i" by auto
      from cso [OF this] z tidyD(2) [OF t] show "bytesLeft s = arenaSize s" by simp
    qed
  next
    case one: True
    show ?thesis
    proof (cases "i = activeArenaId s")
      case True
      have eq: "snd (do_deallocate True s p b a) =
          resetActiveArena (s\<lparr>numAllocationsInArena := cs\<rparr>)"
        using one True by (simp add: gen)
      show ?thesis
        unfolding eq tidy_def resetActiveArena_def
      proof (simp, intro allI impI)
        fix j
        assume j: "j < numArenas s"
          and h: "j \<noteq> activeArenaId s \<and> j \<notin> set (take (freeListHead s) (freeList s))"
        then have "numAllocationsInArena s ! j \<noteq> 0"
          using tidyD(1) [OF t] by blast
        with h True cso [of j] show "0 < cs ! j" by simp
      qed
    next
      case False
      let ?fl = "(freeList s)[freeListHead s := i]"
      have hlen: "freeListHead s < length (freeList s)" using d(2,5) by simp
      have csz: "cs[i := 0] = cs"
        using one ilen by (simp add: cs_def)
      have eq: "do_deallocate True s p b a =
          (Inr (), s\<lparr>freeList := ?fl, freeListHead := freeListHead s + 1,
                     numAllocationsInArena := cs\<rparr>)"
        using one False d(5) csz by (simp add: gen releaseArena_def)
      have tk: "take (Suc (freeListHead s)) ?fl = take (freeListHead s) (freeList s) @ [i]"
        using hlen by (simp add: take_Suc_conv_app_nth)
      show ?thesis
        unfolding eq tidy_def
      proof (simp add: tk, intro conjI allI impI)
        fix j
        assume j: "j < numArenas s"
          and h: "j \<noteq> activeArenaId s \<and> j \<noteq> i \<and> j \<notin> set (take (freeListHead s) (freeList s))"
        then have "numAllocationsInArena s ! j \<noteq> 0"
          using tidyD(1) [OF t] by blast
        with h cso [of j] show "0 < cs ! j" by simp
      next
        assume z: "cs ! activeArenaId s = 0"
        from False have "activeArenaId s \<noteq> i" by simp
        from cso [OF this] z tidyD(2) [OF t] show "bytesLeft s = arenaSize s" by simp
      qed
    qed
  qed
qed

lemma init_tidy:
  assumes "wf_geometry n sz base"
  shows "tidy (initializeArenas n sz base)"
proof -
  from assms have n: "0 < n" by (simp add: wf_geometry_def)
  define fl where "fl = map (\<lambda>i. n - 1 - i) [0 ..< n]"
  define h where "h = n - 1"
  have eq: "initializeArenas n sz base =
     \<lparr>numArenas = n, arenaSize = sz, arenaData = base,
      data = base + sz * 0 + sz, bytesLeft = sz, activeArenaId = 0,
      freeListHead = h, freeList = fl, numAllocationsInArena = replicate n 0\<rparr>"
    unfolding fl_def h_def by (rule initializeArenas_eq [OF assms])
  have tk: "take h fl = map (\<lambda>i. n - 1 - i) [0 ..< n - 1]"
    unfolding fl_def h_def by (simp add: take_map)
  have mem: "i \<in> set (take h fl)" if "i < n" "i \<noteq> 0" for i
  proof -
    have "n - 1 - i < n - 1" using that by linarith
    moreover have "n - 1 - (n - 1 - i) = i" using that by linarith
    ultimately have "i \<in> (\<lambda>i. n - 1 - i) ` {0 ..< n - 1}"
      by (intro image_eqI [where x = "n - 1 - i"]) simp_all
    then show ?thesis unfolding tk by simp
  qed
  show ?thesis
    unfolding eq tidy_def using mem by auto
qed

text \<open>
  With no live allocation every arena but the active one is in the free list.
\<close>

lemma tidy_empty_not_busy:
  assumes inv: "pool_inv s []" and t: "tidy s"
  shows "numberOfBusyArenas s = 0"
proof -
  note d = pool_invD [OF inv]
  note g = geometry_bounds [OF d(1)]
  let ?F = "take (freeListHead s) (freeList s)"
  have zero: "numAllocationsInArena s ! i = 0" if "i < numArenas s" for i
    using d(11) that by (simp add: arena_count_def)
  have "{0 ..< numArenas s} - {activeArenaId s} \<subseteq> set ?F"
  proof
    fix i assume "i \<in> {0 ..< numArenas s} - {activeArenaId s}"
    then have i: "i < numArenas s" "i \<noteq> activeArenaId s" by simp_all
    show "i \<in> set ?F"
    proof (rule ccontr)
      assume "i \<notin> set ?F"
      from tidyD(1) [OF t i this] zero [OF i(1)] show False by simp
    qed
  qed
  with d(8) have "set ?F = {0 ..< numArenas s} - {activeArenaId s}" by blast
  then have "card (set ?F) = numArenas s - 1"
    using d(4) by simp
  moreover have "card (set ?F) = length ?F"
    by (rule distinct_card [OF d(9)])
  moreover have "length ?F = freeListHead s"
    using d(2,5) by simp
  ultimately have head: "freeListHead s = numArenas s - 1" by simp
  have "sub32 (numArenas s) (freeListHead s) = numArenas s - freeListHead s"
    using d(5) g(7) by (intro sub32_exact) simp_all
  also have "\<dots> = 1" using head g(1) by simp
  finally have one: "sub32 (numArenas s) (freeListHead s) = 1" .
  show ?thesis
    by (simp add: numberOfBusyArenas_def Let_def one allocationsInArena_def zero [OF d(4)])
qed

lemma step_tidy:
  assumes "run_inv n sz base r" and "tidy (the_pool r)" and "step r x = Some r'"
    and "within_storage_alignment sz base x"
  shows "tidy (the_pool r')"
proof (cases x)
  case (Allocate b a)
  from assms(1) have inv: "pool_inv (the_pool r) (live r)"
    and geo: "arenaSize (the_pool r) = sz" "arenaData (the_pool r) = base"
    by (simp_all add: run_inv_def)
  from assms(3) Allocate have req: "valid_request b a"
    by (auto split: if_splits)
  from assms(4) Allocate have al: "a dvd arenaData (the_pool r)" "a dvd arenaSize (the_pool r)"
    by (simp_all add: geo)
  have "the_pool r' = snd (do_allocate True (the_pool r) b a)"
    using assms(3) by (auto simp: Allocate req split: prod.splits sum.splits if_splits)
  with allocate_tidy [OF inv assms(2) req al, of True] show ?thesis by simp
next
  case (Deallocate p b a)
  from assms(1) have inv: "pool_inv (the_pool r) (live r)" by (simp add: run_inv_def)
  from assms(3) Deallocate have live: "p \<in> set (live r)"
    by (auto split: if_splits)
  have "the_pool r' = snd (do_deallocate True (the_pool r) p b a)"
    using assms(3) by (auto simp: Deallocate live)
  with deallocate_tidy [OF inv assms(2) live, of b a] show ?thesis by simp
qed

lemma run_tidy:
  "run r xs = Some r' \<Longrightarrow> run_inv n sz base r \<Longrightarrow> tidy (the_pool r) \<Longrightarrow>
   list_all (within_storage_alignment sz base) xs \<Longrightarrow> tidy (the_pool r')"
proof (induction xs arbitrary: r)
  case Nil
  then show ?case by simp
next
  case (Cons x xs)
  from Cons.prems(1) obtain r1 where s: "step r x = Some r1" and rest: "run r1 xs = Some r'"
    by (auto split: option.splits)
  from Cons.prems(4) have x: "within_storage_alignment sz base x"
    and xs: "list_all (within_storage_alignment sz base) xs" by simp_all
  from Cons.IH [OF rest step_inv [OF Cons.prems(2) s] step_tidy [OF Cons.prems(2,3) s x] xs]
  show ?case .
qed

text \<open>
  After any sequence of calls within the contract whose alignments divide the address of
  the storage and the arena size, the unsynchronized pool with no live allocation reports
  no busy arena.
\<close>

lemma no_allocation_no_busy_arena:
  assumes geo: "wf_geometry n sz base" and run: "run (start n sz base) ops = Some r"
    and al: "list_all (within_storage_alignment sz base) ops"
    and none: "numberOfAllocations (the_pool r) = 0"
  shows "numberOfBusyArenas (the_pool r) = 0"
proof -
  have ri: "run_inv n sz base r"
    by (rule run_reaches_inv [OF geo run])
  then have inv: "pool_inv (the_pool r) (live r)" by (simp add: run_inv_def)
  have "tidy (the_pool (start n sz base))"
    by (simp add: start_def init_tidy [OF geo])
  from run_tidy [OF run start_inv [OF geo] this al] have t: "tidy (the_pool r)" .
  from numberOfAllocations_live [OF inv] none have "live r = []" by simp
  with inv have "pool_inv (the_pool r) []" by simp
  from tidy_empty_not_busy [OF this t] show ?thesis .
qed

subsection \<open>The synchronized pool\<close>

lemma sync_tidyD:
  assumes "sync_tidy s"
  shows "\<And>i. i < s_numArenas s \<Longrightarrow> i \<noteq> s_activeArenaId s \<Longrightarrow>
           i \<notin> set (take (s_freeListHead s) (s_freeList s)) \<Longrightarrow>
           s_numAllocationsInArena s ! i \<noteq> s_numDeallocationsInArena s ! i"
    and "s_numAllocationsInArena s ! s_activeArenaId s =
           s_numDeallocationsInArena s ! s_activeArenaId s \<Longrightarrow> s_bytesReserved s = 0"
  using assms unfolding sync_tidy_def by blast+

lemma sync_bump_tidy:
  assumes inv: "sync_inv s L" and t: "sync_tidy s"
    and s': "s' = s\<lparr>s_bytesReserved := br,
              s_data := p,
              s_numAllocationsInArena :=
                (s_numAllocationsInArena s)[s_activeArenaId s :=
                   u32 (s_numAllocationsInArena s ! s_activeArenaId s + 1)]\<rparr>"
  shows "sync_tidy s'"
proof -
  note d = sync_invD [OF inv]
  note g = geometry_bounds [OF d(1)]
  define c where "c = s_numAllocationsInArena s ! s_activeArenaId s"
  have "c * binSize \<le> s_arenaSize s" using d(16) d(5) by (simp add: c_def)
  then have "c + 1 < 2 ^ 32" using g(6) by (simp add: binSize_def)
  then have c1: "u32 (c + 1) = c + 1" by (rule u32_id)
  have alen: "s_activeArenaId s < length (s_numAllocationsInArena s)" using d(3,5) by simp
  have "s_numDeallocationsInArena s ! s_activeArenaId s \<le> c"
    using d(12) d(5) by (simp add: c_def)
  then have act: "s_numAllocationsInArena s' ! s_activeArenaId s' \<noteq>
      s_numDeallocationsInArena s' ! s_activeArenaId s'"
    using alen c1 by (simp add: s' c_def [symmetric])
  have other: "s_numAllocationsInArena s' ! i = s_numAllocationsInArena s ! i"
    if "i \<noteq> s_activeArenaId s" for i
    using that by (simp add: s')
  show ?thesis
    unfolding sync_tidy_def
  proof (intro conjI allI impI)
    fix i
    assume "i < s_numArenas s'"
      and "i \<noteq> s_activeArenaId s' \<and> i \<notin> set (take (s_freeListHead s') (s_freeList s'))"
    then have "i < s_numArenas s" "i \<noteq> s_activeArenaId s"
      "i \<notin> set (take (s_freeListHead s) (s_freeList s))"
      by (simp_all add: s')
    from sync_tidyD(1) [OF t this] other [OF this(2)]
    show "s_numAllocationsInArena s' ! i \<noteq> s_numDeallocationsInArena s' ! i"
      by (simp add: s')
  next
    assume "s_numAllocationsInArena s' ! s_activeArenaId s' =
      s_numDeallocationsInArena s' ! s_activeArenaId s'"
    with act show "s_bytesReserved s' = 0" by simp
  qed
qed

lemma sync_reserve_tidy:
  assumes inv: "sync_inv s L" and t: "sync_tidy s"
    and busy: "s_numAllocationsInArena s ! s_activeArenaId s \<noteq>
      s_numDeallocationsInArena s ! s_activeArenaId s"
    and free: "s_freeListHead s \<noteq> 0"
  shows "sync_tidy (snd (sync_reserveNextArena s))"
proof -
  note d = sync_invD [OF inv]
  define h where "h = s_freeListHead s - 1"
  from free have hd: "s_freeListHead s = Suc h" by (simp add: h_def)
  have hlen: "h < length (s_freeList s)" using d(2,6) hd by simp
  have tk: "take (s_freeListHead s) (s_freeList s) = take h (s_freeList s) @ [s_freeList s ! h]"
    unfolding hd by (rule take_Suc_conv_app_nth [OF hlen])
  show ?thesis
    unfolding sync_tidy_def sync_reserveNextArena_some [OF free] h_def [symmetric]
  proof (simp, intro allI impI)
    fix i
    assume i: "i < s_numArenas s"
      and "i \<noteq> s_freeList s ! h \<and> i \<notin> set (take h (s_freeList s))"
    then have nf: "i \<notin> set (take (s_freeListHead s) (s_freeList s))"
      by (simp add: tk)
    show "s_numAllocationsInArena s ! i \<noteq> s_numDeallocationsInArena s ! i"
    proof (cases "i = s_activeArenaId s")
      case True
      with busy show ?thesis by simp
    next
      case False
      from sync_tidyD(1) [OF t i False nf] show ?thesis .
    qed
  qed
qed

lemma sync_details_tidy:
  assumes inv: "sync_inv s L" and t: "sync_tidy s"
    and le: "m \<le> s_arenaSize s"
  shows "sync_tidy (snd (sync_do_allocate_details s m))"
proof -
  note d = sync_invD [OF inv]
  note g = geometry_bounds [OF d(1)]
  have big: "(2::nat) ^ 32 + 2 ^ 32 < 2 ^ 64" by simp
  then have "s_bytesReserved s + m < 2 ^ 64"
    using d(7) le g(6) by linarith
  then have nr: "u64 (s_bytesReserved s + m) = s_bytesReserved s + m"
    by (rule u64_id)
  show ?thesis
  proof (cases "s_arenaSize s < s_bytesReserved s + m")
    case False
    have "sync_do_allocate_details s m =
        (s_data s,
         s\<lparr>s_bytesReserved := s_bytesReserved s + m,
           s_data := u64 (s_data s + m),
           s_numAllocationsInArena :=
             (s_numAllocationsInArena s)[s_activeArenaId s :=
                u32 (s_numAllocationsInArena s ! s_activeArenaId s + 1)]\<rparr>)"
      using False by (subst sync_do_allocate_details.simps) (simp add: Let_def nr)
    then show ?thesis
      using sync_bump_tidy [OF inv t refl] by simp
  next
    case nofit: True
    show ?thesis
    proof (cases "s_freeListHead s = 0")
      case True
      then have "\<not> fst (sync_reserveNextArena s)"
        by (simp add: sync_reserveNextArena_none)
      with nofit have "sync_do_allocate_details s m = (0, s)"
        by (subst sync_do_allocate_details.simps) (simp add: Let_def nr)
      with t show ?thesis by simp
    next
      case free: False
      have busy: "s_numAllocationsInArena s ! s_activeArenaId s \<noteq>
          s_numDeallocationsInArena s ! s_activeArenaId s"
      proof
        assume "s_numAllocationsInArena s ! s_activeArenaId s =
          s_numDeallocationsInArena s ! s_activeArenaId s"
        from sync_tidyD(2) [OF t this] nofit le show False by simp
      qed
      define s1 where "s1 = snd (sync_reserveNextArena s)"
      have ok: "fst (sync_reserveNextArena s)"
        using free by (simp add: sync_reserveNextArena_some)
      have inv1: "sync_inv s1 L" and z: "s_bytesReserved s1 = 0"
        unfolding s1_def by (rule sync_reserve_inv [OF inv ok])+
      have t1: "sync_tidy s1"
        unfolding s1_def by (rule sync_reserve_tidy [OF inv t busy free])
      have sz: "s_arenaSize s1 = s_arenaSize s"
        by (simp add: s1_def sync_reserve_geometry)
      have eq: "sync_do_allocate_details s m = sync_do_allocate_details s1 m"
        using nofit ok by (subst sync_do_allocate_details.simps) (simp add: Let_def nr s1_def)
      have "m < 2 ^ 64" using le g(6) big by linarith
      then have nr1: "u64 (s_bytesReserved s1 + m) = s_bytesReserved s1 + m"
        by (simp add: z u64_id)
      have fit: "s_bytesReserved s1 + m \<le> s_arenaSize s1"
        using le by (simp add: z sz)
      have eq1: "sync_do_allocate_details s1 m =
        (s_data s1,
         s1\<lparr>s_bytesReserved := s_bytesReserved s1 + m,
           s_data := u64 (s_data s1 + m),
           s_numAllocationsInArena :=
             (s_numAllocationsInArena s1)[s_activeArenaId s1 :=
                u32 (s_numAllocationsInArena s1 ! s_activeArenaId s1 + 1)]\<rparr>)"
        using fit by (subst sync_do_allocate_details.simps) (simp add: Let_def nr1)
      from sync_bump_tidy [OF inv1 t1 refl] show ?thesis
        unfolding eq eq1 by simp
    qed
  qed
qed

lemma sync_allocate_tidy:
  assumes inv: "sync_inv s L" and t: "sync_tidy s"
  shows "sync_tidy (snd (sync_do_allocate ee s b a))"
proof -
  define m where "m = u64 (u64 (u64 b + binSize - 1) div binSize * binSize)"
  show ?thesis
  proof (cases "b = 0 \<or> s_arenaSize s < m")
    case True
    with t show ?thesis
      unfolding sync_do_allocate_def Let_def m_def [symmetric] by auto
  next
    case False
    then have le: "m \<le> s_arenaSize s" by simp
    from sync_details_tidy [OF inv t le] False show ?thesis
      unfolding sync_do_allocate_def Let_def m_def [symmetric]
      by (cases "sync_do_allocate_details s m") auto
  qed
qed

lemma sync_deallocate_tidy:
  assumes inv: "sync_inv s L" and t: "sync_tidy s" and live: "p \<in> set L"
  shows "sync_tidy (snd (sync_do_deallocate True s p b a))"
proof -
  note d = sync_invD [OF inv]
  note g = geometry_bounds [OF d(1)]
  define i where "i = arenaIdOf (s_arenaData s) (s_arenaSize s) p"
  define al where "al = s_numAllocationsInArena s ! i"
  define de where "de = s_numDeallocationsInArena s ! i"
  define ds where "ds = (s_numDeallocationsInArena s)[i := de + 1]"
  from d(13) live have st: "in_storage (s_numArenas s) (s_arenaSize s) (s_arenaData s) p" by blast
  have iN: "i < s_numArenas s"
    unfolding i_def by (rule arenaIdOf_in_storage [OF d(1) st])
  have ilen: "i < length (s_numDeallocationsInArena s)" "i < length (s_numAllocationsInArena s)"
    using iN d(3,4) by simp_all
  have al_eq: "al = de + arena_count (s_arenaData s) (s_arenaSize s) L i"
    using d(12) iN by (simp add: al_def de_def)
  have c_pos: "0 < arena_count (s_arenaData s) (s_arenaSize s) L i"
    unfolding i_def by (rule arena_count_pos [OF live])
  have "al * binSize \<le> s_arenaSize s" using d(16) iN by (simp add: al_def)
  then have "al \<le> s_arenaSize s" by (simp add: binSize_def)
  then have "de + 1 < 2 ^ 32" using g(6) al_eq c_pos by linarith
  then have "u32 (de + 1) = de + 1" by (rule u32_id)
  then have inc: "u32 (Suc de) = Suc de" by simp
  have gen: "sync_do_deallocate True s p b a =
      (let s1 = s\<lparr>s_numDeallocationsInArena := ds\<rparr>
       in if al = de + 1 then
            (if i = s_activeArenaId s then (Inr (), sync_resetActiveArena s1)
             else (case sync_releaseArena s1 i of Inl e \<Rightarrow> (Inl e, s1) | Inr s2 \<Rightarrow> (Inr (), s2)))
          else (Inr (), s1))"
    using g(2) iN ilen
    by (simp add: sync_do_deallocate_def Let_def i_def [symmetric] de_def [symmetric]
        al_def [symmetric] inc ds_def)
  have dsi: "ds ! i = de + 1" using ilen by (simp add: ds_def)
  have dso: "ds ! j = s_numDeallocationsInArena s ! j" if "j \<noteq> i" for j
    using that by (simp add: ds_def)
  show ?thesis
  proof (cases "al = de + 1")
    case False
    then have eq: "sync_do_deallocate True s p b a = (Inr (), s\<lparr>s_numDeallocationsInArena := ds\<rparr>)"
      by (simp add: gen)
    show ?thesis
      unfolding eq sync_tidy_def
    proof (simp, intro conjI allI impI)
      fix j
      assume j: "j < s_numArenas s"
        and "j \<noteq> s_activeArenaId s \<and> j \<notin> set (take (s_freeListHead s) (s_freeList s))"
      then have "s_numAllocationsInArena s ! j \<noteq> s_numDeallocationsInArena s ! j"
        using sync_tidyD(1) [OF t] by blast
      then show "s_numAllocationsInArena s ! j \<noteq> ds ! j"
        using False dsi dso [of j] by (cases "j = i") (simp_all add: al_def)
    next
      assume z: "s_numAllocationsInArena s ! s_activeArenaId s = ds ! s_activeArenaId s"
      with False dsi have "s_activeArenaId s \<noteq> i" by (auto simp: al_def)
      from dso [OF this] z sync_tidyD(2) [OF t] show "s_bytesReserved s = 0" by simp
    qed
  next
    case one: True
    show ?thesis
    proof (cases "i = s_activeArenaId s")
      case True
      have eq: "snd (sync_do_deallocate True s p b a) =
          sync_resetActiveArena (s\<lparr>s_numDeallocationsInArena := ds\<rparr>)"
        using one True by (simp add: gen)
      show ?thesis
        unfolding eq sync_tidy_def sync_resetActiveArena_def
      proof (simp, intro allI impI)
        fix j
        assume j: "j < s_numArenas s"
          and h: "j \<noteq> s_activeArenaId s \<and> j \<notin> set (take (s_freeListHead s) (s_freeList s))"
        then have "s_numAllocationsInArena s ! j \<noteq> s_numDeallocationsInArena s ! j"
          using sync_tidyD(1) [OF t] by blast
        with h True dso [of j] show "s_numAllocationsInArena s ! j \<noteq> ds ! j" by simp
      qed
    next
      case False
      define fl where "fl = (s_freeList s)[s_freeListHead s := i]"
      define as0 where "as0 = (s_numAllocationsInArena s)[i := 0]"
      define ds0 where "ds0 = ds[i := 0]"
      define s2 where "s2 = s\<lparr>s_freeList := fl, s_freeListHead := s_freeListHead s + 1,
                     s_numAllocationsInArena := as0,
                     s_numDeallocationsInArena := ds0\<rparr>"
      have hlen: "s_freeListHead s < length (s_freeList s)" using d(2,6) by simp
      have eq: "snd (sync_do_deallocate True s p b a) = s2"
        using one False d(6)
        by (simp add: gen sync_releaseArena_def s2_def fl_def as0_def ds0_def)
      have tk: "take (s_freeListHead s2) (s_freeList s2) =
          take (s_freeListHead s) (s_freeList s) @ [i]"
        using hlen by (simp add: s2_def fl_def take_Suc_conv_app_nth)
      have f: "s_numArenas s2 = s_numArenas s" "s_activeArenaId s2 = s_activeArenaId s"
        "s_numAllocationsInArena s2 = as0" "s_numDeallocationsInArena s2 = ds0"
        "s_bytesReserved s2 = s_bytesReserved s"
        by (simp_all add: s2_def)
      have aso: "as0 ! j = s_numAllocationsInArena s ! j" if "j \<noteq> i" for j
        using that by (simp add: as0_def)
      have dso0: "ds0 ! j = s_numDeallocationsInArena s ! j" if "j \<noteq> i" for j
        using that by (simp add: ds0_def ds_def)
      show ?thesis
        unfolding eq sync_tidy_def tk f
      proof (intro conjI allI impI)
        fix j
        assume j: "j < s_numArenas s"
          and h: "j \<noteq> s_activeArenaId s \<and>
            j \<notin> set (take (s_freeListHead s) (s_freeList s) @ [i])"
        then have ne: "j \<noteq> i" and "j \<notin> set (take (s_freeListHead s) (s_freeList s))"
          by simp_all
        with j h have "s_numAllocationsInArena s ! j \<noteq> s_numDeallocationsInArena s ! j"
          using sync_tidyD(1) [OF t] by blast
        then show "as0 ! j \<noteq> ds0 ! j"
          by (simp add: aso [OF ne] dso0 [OF ne])
      next
        assume z: "as0 ! s_activeArenaId s = ds0 ! s_activeArenaId s"
        from False have ne: "s_activeArenaId s \<noteq> i" by simp
        from z sync_tidyD(2) [OF t] show "s_bytesReserved s = 0"
          by (simp add: aso [OF ne] dso0 [OF ne])
      qed
    qed
  qed
qed

lemma sync_init_tidy:
  assumes "wf_geometry n sz base"
  shows "sync_tidy (sync_initializeArenas n sz base)"
proof -
  from assms have n: "0 < n" by (simp add: wf_geometry_def)
  define fl where "fl = map (\<lambda>i. n - 1 - i) [0 ..< n]"
  define h where "h = n - 1"
  have eq: "sync_initializeArenas n sz base =
     \<lparr>s_numArenas = n, s_arenaSize = sz, s_arenaData = base,
      s_data = base + sz * 0, s_bytesReserved = 0, s_activeArenaId = 0,
      s_freeListHead = h, s_freeList = fl,
      s_numAllocationsInArena = replicate n 0,
      s_numDeallocationsInArena = replicate n 0\<rparr>"
    unfolding fl_def h_def by (rule sync_initializeArenas_eq [OF assms])
  have tk: "take h fl = map (\<lambda>i. n - 1 - i) [0 ..< n - 1]"
    unfolding fl_def h_def by (simp add: take_map)
  have mem: "i \<in> set (take h fl)" if "i < n" "i \<noteq> 0" for i
  proof -
    have "n - 1 - i < n - 1" using that by linarith
    moreover have "n - 1 - (n - 1 - i) = i" using that by linarith
    ultimately have "i \<in> (\<lambda>i. n - 1 - i) ` {0 ..< n - 1}"
      by (intro image_eqI [where x = "n - 1 - i"]) simp_all
    then show ?thesis unfolding tk by simp
  qed
  show ?thesis
    unfolding eq sync_tidy_def using mem by auto
qed

lemma sync_tidy_empty_not_busy:
  assumes inv: "sync_inv s []" and t: "sync_tidy s"
  shows "sync_numberOfBusyArenas s = 0"
proof -
  note d = sync_invD [OF inv]
  note g = geometry_bounds [OF d(1)]
  let ?F = "take (s_freeListHead s) (s_freeList s)"
  have zero: "s_numAllocationsInArena s ! i = s_numDeallocationsInArena s ! i"
    if "i < s_numArenas s" for i
    using d(12) that by (simp add: arena_count_def)
  have "{0 ..< s_numArenas s} - {s_activeArenaId s} \<subseteq> set ?F"
  proof
    fix i assume "i \<in> {0 ..< s_numArenas s} - {s_activeArenaId s}"
    then have i: "i < s_numArenas s" "i \<noteq> s_activeArenaId s" by simp_all
    show "i \<in> set ?F"
    proof (rule ccontr)
      assume "i \<notin> set ?F"
      from sync_tidyD(1) [OF t i this] zero [OF i(1)] show False by simp
    qed
  qed
  with d(9) have "set ?F = {0 ..< s_numArenas s} - {s_activeArenaId s}" by blast
  then have "card (set ?F) = s_numArenas s - 1"
    using d(5) by simp
  moreover have "card (set ?F) = length ?F"
    by (rule distinct_card [OF d(10)])
  moreover have "length ?F = s_freeListHead s"
    using d(2,6) by simp
  ultimately have head: "s_freeListHead s = s_numArenas s - 1" by simp
  have "sub32 (s_numArenas s) (s_freeListHead s) = s_numArenas s - s_freeListHead s"
    using d(6) g(7) by (intro sub32_exact) simp_all
  also have "\<dots> = 1" using head g(1) by simp
  finally have one: "sub32 (s_numArenas s) (s_freeListHead s) = 1" .
  define c where "c = s_numDeallocationsInArena s ! s_activeArenaId s"
  have "s_numAllocationsInArena s ! s_activeArenaId s * binSize \<le> s_arenaSize s"
    using d(16) d(5) by blast
  then have "c * binSize \<le> s_arenaSize s"
    by (simp add: c_def zero [OF d(5)])
  then have "c < 2 ^ 32" using g(6) by (simp add: binSize_def)
  then have "sub32 c c = c - c" by (intro sub32_exact) simp_all
  then have "sync_allocationsInArena s (s_activeArenaId s) = 0"
    by (simp add: sync_allocationsInArena_def zero [OF d(5)] c_def)
  then show ?thesis
    by (simp add: sync_numberOfBusyArenas_def Let_def one)
qed

lemma sync_step_tidy:
  assumes "sync_run_inv n sz base r" and "sync_tidy (the_pool r)" and "sync_step r x = Some r'"
  shows "sync_tidy (the_pool r')"
proof (cases x)
  case (Allocate b a)
  from assms(1) have inv: "sync_inv (the_pool r) (live r)"
    by (simp add: sync_run_inv_def)
  from assms(3) Allocate have req: "valid_request b a"
    by (auto split: if_splits)
  have "the_pool r' = snd (sync_do_allocate True (the_pool r) b a)"
    using assms(3) by (auto simp: Allocate req split: prod.splits sum.splits if_splits)
  with sync_allocate_tidy [OF inv assms(2), of True b a] show ?thesis by simp
next
  case (Deallocate p b a)
  from assms(1) have inv: "sync_inv (the_pool r) (live r)" by (simp add: sync_run_inv_def)
  from assms(3) Deallocate have live: "p \<in> set (live r)"
    by (auto split: if_splits)
  have "the_pool r' = snd (sync_do_deallocate True (the_pool r) p b a)"
    using assms(3) by (auto simp: Deallocate live)
  with sync_deallocate_tidy [OF inv assms(2) live, of b a] show ?thesis by simp
qed

lemma sync_run_tidy:
  "sync_run r xs = Some r' \<Longrightarrow> sync_run_inv n sz base r \<Longrightarrow> sync_tidy (the_pool r) \<Longrightarrow>
   sync_tidy (the_pool r')"
proof (induction xs arbitrary: r)
  case Nil
  then show ?case by simp
next
  case (Cons x xs)
  from Cons.prems(1) obtain r1 where s: "sync_step r x = Some r1"
    and rest: "sync_run r1 xs = Some r'"
    by (auto split: option.splits)
  from Cons.IH [OF rest sync_step_inv [OF Cons.prems(2) s] sync_step_tidy [OF Cons.prems(2,3) s]]
  show ?case .
qed

text \<open>
  After any sequence of calls within the contract the synchronized pool with no live
  allocation reports no busy arena.
\<close>

lemma sync_no_allocation_no_busy_arena:
  assumes geo: "wf_geometry n sz base" and run: "sync_run (sync_start n sz base) ops = Some r"
    and none: "sync_numberOfAllocations (the_pool r) = 0"
  shows "sync_numberOfBusyArenas (the_pool r) = 0"
proof -
  have ri: "sync_run_inv n sz base r"
    by (rule sync_run_reaches_inv [OF geo run])
  then have inv: "sync_inv (the_pool r) (live r)" by (simp add: sync_run_inv_def)
  have "sync_tidy (the_pool (sync_start n sz base))"
    by (simp add: sync_start_def sync_init_tidy [OF geo])
  from sync_run_tidy [OF run sync_start_inv [OF geo] this] have t: "sync_tidy (the_pool r)" .
  from sync_numberOfAllocations_live [OF inv] none have "live r = []" by simp
  with inv have "sync_inv (the_pool r) []" by simp
  from sync_tidy_empty_not_busy [OF this t] show ?thesis .
qed

end
